theory Spec2Isabelle
  imports Complex_Main "HOL-Library.Word" "HOL-Library.Multiset"
begin

unbundle bit_operations_syntax

section \<open>JavaScript primitives used by the hash map\<close>

text \<open>
  The map is written in TypeScript. Its numbers are IEEE doubles; the model uses
  mathematical integers (\<open>int\<close>) for every number that the code keeps integral (bucket
  counts, entry counts, hash values, requested capacities) and exact rationals for the
  load threshold \<open>0.75\<close>. On integers of magnitude below \<open>2 ^ 50\<close> the double
  computations of the source (\<open>n * 0.75\<close>, \<open>n / 0.75\<close>, \<open>count / length\<close> with a
  power-of-two length, followed by \<open>Math.ceil\<close>, \<open>Math.floor\<close> or a comparison with
  \<open>0.75\<close>) give the same results as the exact ones. The 32-bit operators \<open>&\<close>,
  \<open><<\<close>, \<open>| 0\<close> and \<open>Math.clz32\<close> are modelled on \<open>32 word\<close> with their
  conversions (ToInt32, ToUint32) written out.

  A \<open>TypeError\<close> is what the source raises when it reads \<open>.length\<close> or calls
  \<open>.push\<close> on \<open>undefined\<close>, that is, when an index into the bucket array is out of
  range.
\<close>

datatype error = TypeError

text \<open>\<open>a & b\<close>: both operands go through ToInt32, the result is an int32.\<close>

definition bitand32 :: "int \<Rightarrow> int \<Rightarrow> int" where
  "bitand32 a b = sint ((word_of_int a :: 32 word) AND word_of_int b)"

text \<open>\<open>a << s\<close>: the shift count is taken modulo 32, the result is an int32.\<close>

definition shl32 :: "int \<Rightarrow> int \<Rightarrow> int" where
  "shl32 a s = sint (push_bit (nat (s mod 32)) (word_of_int a :: 32 word))"

function bit_length :: "int \<Rightarrow> nat" where
  "bit_length n = (if n \<le> 0 then 0 else Suc (bit_length (n div 2)))"
  by pat_completeness auto
termination
  by (relation "measure nat") auto

declare bit_length.simps [simp del]

text \<open>\<open>Math.clz32(x)\<close>: the number of leading zero bits of ToUint32(x).\<close>

definition clz32 :: "int \<Rightarrow> int" where
  "clz32 x = 32 - int (bit_length (uint (word_of_int x :: 32 word)))"

subsection \<open>Keys of the default hasher\<close>

text \<open>
  The primitive keys the default hasher is meant for. \<open>Whole 0\<close> is \<open>+0\<close> and
  \<open>NegZero\<close> is \<open>-0\<close>; \<open>Whole n\<close> stands for the integral double \<open>n\<close>.
  Strings are lists of code units below 256.
\<close>

datatype number = NaN | NegZero | PosInfinity | NegInfinity | Whole int

datatype key = KNumber number | KString string | KBoolean bool | KUndefined | KNull

fun typeof :: "key \<Rightarrow> string" where
  "typeof (KNumber _) = ''number''"
| "typeof (KString _) = ''string''"
| "typeof (KBoolean _) = ''boolean''"
| "typeof KUndefined = ''undefined''"
| "typeof KNull = ''object''"

fun digits :: "nat \<Rightarrow> string" where
  "digits n = (if n < 10 then [char_of (48 + n)] else digits (n div 10) @ [char_of (48 + n mod 10)])"

declare digits.simps [simp del]

text \<open>
  ToString, as the template literal applies it. Both zeros print as \<open>0\<close>. (Integral
  doubles print in decimal up to \<open>10 ^ 21\<close>.)
\<close>

fun numberToString :: "number \<Rightarrow> string" where
  "numberToString NaN = ''NaN''"
| "numberToString NegZero = ''0''"
| "numberToString PosInfinity = ''Infinity''"
| "numberToString NegInfinity = ''-Infinity''"
| "numberToString (Whole n) = (if n < 0 then ''-'' @ digits (nat (- n)) else digits (nat n))"

fun toString :: "key \<Rightarrow> string" where
  "toString (KNumber x) = numberToString x"
| "toString (KString s) = s"
| "toString (KBoolean b) = (if b then ''true'' else ''false'')"
| "toString KUndefined = ''undefined''"
| "toString KNull = ''null''"

text \<open>
  \<open>Object.is\<close> (SameValue) on primitives: \<open>NaN\<close> is the same value as \<open>NaN\<close>,
  and \<open>+0\<close> and \<open>-0\<close> are different values. On the datatype above this is equality
  of constructors.
\<close>

definition Object_is :: "key \<Rightarrow> key \<Rightarrow> bool" where
  "Object_is key1 key2 = (key1 = key2)"

section \<open>Hasher\<close>

record 'k hasher =
  hash :: "'k \<Rightarrow> int"
  equals :: "'k \<Rightarrow> 'k \<Rightarrow> bool"

text \<open>
  \<open>hashString\<close>: \<open>hash = ((hash << 5) - hash + input.charCodeAt(i)) | 0\<close> for each
  code unit. The intermediate sum is exact in doubles and \<open>| 0\<close> wraps it to an int32, so
  the loop is 32-bit word arithmetic read as signed at the end.
\<close>

fun hashString_loop :: "32 word \<Rightarrow> string \<Rightarrow> 32 word" where
  "hashString_loop h [] = h"
| "hashString_loop h (c # cs) = hashString_loop (push_bit 5 h - h + word_of_nat (of_char c)) cs"

definition hashString :: "string \<Rightarrow> int" where
  "hashString input = sint (hashString_loop 0 input)"

definition defaultHasher :: "key hasher" where
  "defaultHasher =
     \<lparr> hash = (\<lambda>key. hashString (typeof key @ '': '' @ toString key)),
       equals = (\<lambda>key1 key2. Object_is key1 key2) \<rparr>"

section \<open>The map\<close>

type_synonym ('k, 't) bucket = "('k \<times> 't) list"

record ('k, 't) hashmap =
  buckets :: "('k, 't) bucket list"
  count_hm :: int

definition loadThreshold :: rat where
  "loadThreshold = 3 / 4"

text \<open>The constructor: eight empty buckets, no entries.\<close>

definition new_HashMap :: "('k, 't) hashmap" where
  "new_HashMap = \<lparr> buckets = replicate 8 [], count_hm = 0 \<rparr>"

definition size_hm :: "('k, 't) hashmap \<Rightarrow> int" where
  "size_hm m = count_hm m"

definition isEmpty :: "('k, 't) hashmap \<Rightarrow> bool" where
  "isEmpty m = (count_hm m = 0)"

definition buckets_hm :: "('k, 't) hashmap \<Rightarrow> int" where
  "buckets_hm m = int (length (buckets m))"

definition capacity :: "('k, 't) hashmap \<Rightarrow> int" where
  "capacity m = \<lfloor>of_nat (length (buckets m)) * loadThreshold\<rfloor>"

text \<open>
  \<open>getBucket\<close> returns the bucket at \<open>Math.abs(hash) & (length - 1)\<close>. The model
  returns the index of that bucket, since every caller goes on to read or mutate the bucket
  in place; where the index is out of range the source gets \<open>undefined\<close> and the
  caller's first access of it raises.
\<close>

definition getBucket :: "'k hasher \<Rightarrow> ('k, 't) hashmap \<Rightarrow> 'k \<Rightarrow> error + nat" where
  "getBucket hs m key =
     (let h = hash hs key;
          i = bitand32 \<bar>h\<bar> (int (length (buckets m)) - 1)
      in if 0 \<le> i \<and> i < int (length (buckets m)) then Inr (nat i) else Inl TypeError)"

subsection \<open>resize\<close>

definition bucketCountFinal :: "int \<Rightarrow> int" where
  "bucketCountFinal newBucketCount = shl32 1 (32 - clz32 (max newBucketCount 1 - 1))"

fun rehash_bucket ::
  "'k hasher \<Rightarrow> int \<Rightarrow> ('k, 't) bucket \<Rightarrow> ('k, 't) bucket list \<Rightarrow> error + ('k, 't) bucket list" where
  "rehash_bucket hs n [] bs = Inr bs"
| "rehash_bucket hs n ((key, value) # rest) bs =
     (let i = bitand32 \<bar>hash hs key\<bar> (n - 1)
      in if 0 \<le> i \<and> i < int (length bs)
         then rehash_bucket hs n rest (bs[nat i := bs ! nat i @ [(key, value)]])
         else Inl TypeError)"

fun rehash_all ::
  "'k hasher \<Rightarrow> int \<Rightarrow> ('k, 't) bucket list \<Rightarrow> ('k, 't) bucket list \<Rightarrow> error + ('k, 't) bucket list" where
  "rehash_all hs n [] bs = Inr bs"
| "rehash_all hs n (bucket # oldBuckets) bs =
     (case rehash_bucket hs n bucket bs of
        Inl e \<Rightarrow> Inl e
      | Inr bs' \<Rightarrow> rehash_all hs n oldBuckets bs')"

text \<open>
  \<open>Array.from({ length: n }, () => [])\<close> makes \<open>max n 0\<close> empty buckets (ToLength
  clamps a negative length to 0).
\<close>

definition resize :: "'k hasher \<Rightarrow> ('k, 't) hashmap \<Rightarrow> int \<Rightarrow> error + ('k, 't) hashmap" where
  "resize hs m newBucketCount =
     (let n = bucketCountFinal newBucketCount
      in case rehash_all hs n (buckets m) (replicate (nat n) []) of
           Inl e \<Rightarrow> Inl e
         | Inr bs \<Rightarrow> Inr (m\<lparr>buckets := bs\<rparr>))"

subsection \<open>set, get, getKeyValue, remove\<close>

fun set_scan :: "'k hasher \<Rightarrow> 'k \<Rightarrow> 't \<Rightarrow> ('k, 't) bucket \<Rightarrow> ('k, 't) bucket option" where
  "set_scan hs key value [] = None"
| "set_scan hs key value ((k, v) # rest) =
     (if equals hs key k then Some ((k, value) # rest)
      else map_option ((#) (k, v)) (set_scan hs key value rest))"

definition set_hm :: "'k hasher \<Rightarrow> ('k, 't) hashmap \<Rightarrow> 'k \<Rightarrow> 't \<Rightarrow> error + ('k, 't) hashmap" where
  "set_hm hs m key value =
     (case getBucket hs m key of
        Inl e \<Rightarrow> Inl e
      | Inr i \<Rightarrow>
          (case set_scan hs key value (buckets m ! i) of
             Some bucket \<Rightarrow> Inr (m\<lparr>buckets := (buckets m)[i := bucket]\<rparr>)
           | None \<Rightarrow>
               (let m' = m\<lparr>buckets := (buckets m)[i := buckets m ! i @ [(key, value)]],
                           count_hm := count_hm m + 1\<rparr>
                in if of_int (count_hm m') / of_nat (length (buckets m')) > loadThreshold
                   then resize hs m' (int (length (buckets m')) * 2)
                   else Inr m')))"

fun get_scan :: "'k hasher \<Rightarrow> 'k \<Rightarrow> ('k, 't) bucket \<Rightarrow> 't option" where
  "get_scan hs key [] = None"
| "get_scan hs key ((k, v) # rest) = (if equals hs key k then Some v else get_scan hs key rest)"

definition get :: "'k hasher \<Rightarrow> ('k, 't) hashmap \<Rightarrow> 'k \<Rightarrow> error + 't option" where
  "get hs m key =
     (case getBucket hs m key of
        Inl e \<Rightarrow> Inl e
      | Inr i \<Rightarrow> Inr (get_scan hs key (buckets m ! i)))"

fun getKeyValue_scan :: "'k hasher \<Rightarrow> 'k \<Rightarrow> ('k, 't) bucket \<Rightarrow> ('k \<times> 't) option" where
  "getKeyValue_scan hs key [] = None"
| "getKeyValue_scan hs key ((k, v) # rest) =
     (if equals hs key k then Some (k, v) else getKeyValue_scan hs key rest)"

definition getKeyValue :: "'k hasher \<Rightarrow> ('k, 't) hashmap \<Rightarrow> 'k \<Rightarrow> error + ('k \<times> 't) option" where
  "getKeyValue hs m key =
     (case getBucket hs m key of
        Inl e \<Rightarrow> Inl e
      | Inr i \<Rightarrow> Inr (getKeyValue_scan hs key (buckets m ! i)))"

definition has :: "'k hasher \<Rightarrow> ('k, 't) hashmap \<Rightarrow> 'k \<Rightarrow> error + bool" where
  "has hs m key = (case get hs m key of Inl e \<Rightarrow> Inl e | Inr exists \<Rightarrow> Inr (exists \<noteq> None))"

text \<open>
  The scan of \<open>remove\<close>: at the first pair whose key equals the argument,
  \<open>bucket.splice(i, 1)\<close> takes that pair out and the value is returned.
\<close>

fun remove_scan :: "'k hasher \<Rightarrow> 'k \<Rightarrow> ('k, 't) bucket \<Rightarrow> ('t \<times> ('k, 't) bucket) option" where
  "remove_scan hs key [] = None"
| "remove_scan hs key ((k, v) # rest) =
     (if equals hs key k then Some (v, rest)
      else map_option (\<lambda>(r, b). (r, (k, v) # b)) (remove_scan hs key rest))"

definition remove ::
  "'k hasher \<Rightarrow> ('k, 't) hashmap \<Rightarrow> 'k \<Rightarrow> error + ('t option \<times> ('k, 't) hashmap)" where
  "remove hs m key =
     (case getBucket hs m key of
        Inl e \<Rightarrow> Inl e
      | Inr i \<Rightarrow>
          (case remove_scan hs key (buckets m ! i) of
             None \<Rightarrow> Inr (None, m)
           | Some (v, bucket) \<Rightarrow>
               Inr (Some v, m\<lparr>buckets := (buckets m)[i := bucket], count_hm := count_hm m - 1\<rparr>)))"

subsection \<open>Capacity control\<close>

definition withCapacity :: "'k hasher \<Rightarrow> int \<Rightarrow> error + ('k, 't) hashmap" where
  "withCapacity hs cap = resize hs new_HashMap \<lceil>of_int cap * loadThreshold\<rceil>"

definition reserve :: "'k hasher \<Rightarrow> ('k, 't) hashmap \<Rightarrow> int \<Rightarrow> error + ('k, 't) hashmap" where
  "reserve hs m newCount =
     (let newTotal = newCount + count_hm m;
          newBucketCount = \<lceil>of_int newTotal / loadThreshold\<rceil>
      in if newBucketCount \<ge> int (length (buckets m)) then resize hs m newBucketCount else Inr m)"

definition shrinkToFit :: "'k hasher \<Rightarrow> ('k, 't) hashmap \<Rightarrow> error + ('k, 't) hashmap" where
  "shrinkToFit hs m =
     (let newBucketCount = \<lceil>of_int (count_hm m) / loadThreshold\<rceil>
      in if newBucketCount < int (length (buckets m)) then resize hs m newBucketCount else Inr m)"

definition shrinkTo :: "'k hasher \<Rightarrow> ('k, 't) hashmap \<Rightarrow> int \<Rightarrow> error + ('k, 't) hashmap" where
  "shrinkTo hs m newCapacity =
     (let targetBucketCount = \<lceil>of_int newCapacity / loadThreshold\<rceil>;
          minBuckets = \<lceil>of_int (count_hm m) / loadThreshold\<rceil>
      in if targetBucketCount \<ge> minBuckets \<and> targetBucketCount < int (length (buckets m))
         then resize hs m targetBucketCount
         else if targetBucketCount < minBuckets then shrinkToFit hs m
         else Inr m)"

fun from_loop :: "'k hasher \<Rightarrow> ('k, 't) hashmap \<Rightarrow> ('k \<times> 't) list \<Rightarrow> error + ('k, 't) hashmap" where
  "from_loop hs m [] = Inr m"
| "from_loop hs m ((key, value) # rest) =
     (case set_hm hs m key value of
        Inl e \<Rightarrow> Inl e
      | Inr m' \<Rightarrow> from_loop hs m' rest)"

definition from_hm :: "'k hasher \<Rightarrow> ('k \<times> 't) list \<Rightarrow> error + ('k, 't) hashmap" where
  "from_hm hs fromArray =
     (case withCapacity hs (int (length fromArray)) of
        Inl e \<Rightarrow> Inl e
      | Inr m \<Rightarrow> from_loop hs m fromArray)"

subsection \<open>Iteration and bulk operations\<close>

text \<open>
  A full run of the map's iterator with no mutation in between: the buckets in order, the
  pairs of each bucket in order.
\<close>

definition iterator :: "('k, 't) hashmap \<Rightarrow> ('k \<times> 't) list" where
  "iterator m = concat (buckets m)"

definition keys :: "('k, 't) hashmap \<Rightarrow> 'k list" where
  "keys m = map fst (iterator m)"

definition values_hm :: "('k, 't) hashmap \<Rightarrow> 't list" where
  "values_hm m = map snd (iterator m)"

definition clear :: "('k, 't) hashmap \<Rightarrow> ('k, 't) hashmap" where
  "clear m = m\<lparr>buckets := replicate (length (buckets m)) [], count_hm := 0\<rparr>"

definition map_hm :: "('t \<Rightarrow> 'k \<Rightarrow> 't) \<Rightarrow> ('k, 't) hashmap \<Rightarrow> ('k, 't) hashmap" where
  "map_hm fn m = m\<lparr>buckets := map (map (\<lambda>(k, v). (k, fn v k))) (buckets m)\<rparr>"

text \<open>
  \<open>retain\<close> walks each bucket from its last pair to its first, splices out the pairs
  that \<open>fn\<close> rejects and decrements the count for each.
\<close>

fun retain_bucket ::
  "('t \<Rightarrow> 'k \<Rightarrow> bool) \<Rightarrow> ('k, 't) bucket \<Rightarrow> int \<Rightarrow> ('k, 't) bucket \<times> int" where
  "retain_bucket fn [] c = ([], c)"
| "retain_bucket fn ((k, v) # rest) c =
     (case retain_bucket fn rest c of
        (rest', c') \<Rightarrow> if fn v k then ((k, v) # rest', c') else (rest', c' - 1))"

fun retain_loop ::
  "('t \<Rightarrow> 'k \<Rightarrow> bool) \<Rightarrow> ('k, 't) bucket list \<Rightarrow> int \<Rightarrow> ('k, 't) bucket list \<times> int" where
  "retain_loop fn [] c = ([], c)"
| "retain_loop fn (bucket # rest) c =
     (case retain_bucket fn bucket c of
        (bucket', c') \<Rightarrow> (case retain_loop fn rest c' of (rest', c'') \<Rightarrow> (bucket' # rest', c'')))"

definition retain :: "('t \<Rightarrow> 'k \<Rightarrow> bool) \<Rightarrow> ('k, 't) hashmap \<Rightarrow> ('k, 't) hashmap" where
  "retain fn m =
     (case retain_loop fn (buckets m) (count_hm m) of
        (bs, c) \<Rightarrow> m\<lparr>buckets := bs, count_hm := c\<rparr>)"

subsection \<open>drain\<close>

text \<open>
  \<open>drain\<close> is a generator method. Calling it makes a generator object and runs none of
  its body; the body starts at the first \<open>next()\<close>: it copies the bucket array, calls
  \<open>clear\<close>, and then yields the pairs of the old buckets one by one. The generator is
  modelled by its three states and \<open>drain_next\<close> is one call of \<open>next()\<close>, which
  returns the pair yielded (\<open>None\<close> when the generator is done), the generator's next
  state and the map. The old buckets are no longer part of the map once \<open>clear\<close> has
  run, so emptying them (\<open>bucket.length = 0\<close>) does not show in the map.
\<close>

datatype ('k, 't) drain_generator =
  Suspended_Start
| Suspended_Yield "('k, 't) bucket list"
| Completed

definition drain :: "('k, 't) hashmap \<Rightarrow> ('k, 't) drain_generator \<times> ('k, 't) hashmap" where
  "drain m = (Suspended_Start, m)"

fun drain_walk :: "('k, 't) bucket list \<Rightarrow> (('k \<times> 't) \<times> ('k, 't) bucket list) option" where
  "drain_walk [] = None"
| "drain_walk ([] # oldBuckets) = drain_walk oldBuckets"
| "drain_walk ((p # bucket) # oldBuckets) = Some (p, bucket # oldBuckets)"

fun drain_next ::
  "('k, 't) drain_generator \<Rightarrow> ('k, 't) hashmap \<Rightarrow>
   ('k \<times> 't) option \<times> ('k, 't) drain_generator \<times> ('k, 't) hashmap" where
  "drain_next Suspended_Start m =
     (let oldBuckets = buckets m; m' = clear m
      in case drain_walk oldBuckets of
           None \<Rightarrow> (None, Completed, m')
         | Some (p, rest) \<Rightarrow> (Some p, Suspended_Yield rest, m'))"
| "drain_next (Suspended_Yield oldBuckets) m =
     (case drain_walk oldBuckets of
        None \<Rightarrow> (None, Completed, m)
      | Some (p, rest) \<Rightarrow> (Some p, Suspended_Yield rest, m))"
| "drain_next Completed m = (None, Completed, m)"

text \<open>
  \<open>Array.from(map.drain())\<close>: \<open>next()\<close> is called until the generator is done and
  nothing else touches the map in between. The result is the list of the pairs yielded and
  the map at the end.
\<close>

fun drain_measure :: "('k, 't) drain_generator \<Rightarrow> ('k, 't) hashmap \<Rightarrow> nat" where
  "drain_measure Suspended_Start m = Suc (length (concat (buckets m)))"
| "drain_measure (Suspended_Yield oldBuckets) m = length (concat oldBuckets)"
| "drain_measure Completed m = 0"

lemma drain_walk_shorter:
  "drain_walk bs = Some (p, rest) \<Longrightarrow> length (concat rest) < length (concat bs)"
  by (induction bs rule: drain_walk.induct) auto

lemma drain_next_measure:
  "drain_next g m = (Some p, g', m') \<Longrightarrow> drain_measure g' m' < drain_measure g m"
  by (cases g) (auto simp: Let_def less_Suc_eq dest: drain_walk_shorter split: option.splits)

function drain_all ::
  "('k, 't) drain_generator \<Rightarrow> ('k, 't) hashmap \<Rightarrow> ('k \<times> 't) list \<times> ('k, 't) hashmap" where
  "drain_all g m =
     (case drain_next g m of
        (None, g', m') \<Rightarrow> ([], m')
      | (Some p, g', m') \<Rightarrow> (case drain_all g' m' of (ps, m'') \<Rightarrow> (p # ps, m'')))"
  by pat_completeness auto
termination
  by (relation "measure (\<lambda>(g, m). drain_measure g m)") (auto dest: drain_next_measure [OF sym])

declare drain_all.simps [simp del]

section \<open>Entry\<close>

text \<open>
  An \<open>Entry\<close> holds a reference to a map and a key. Maps live in a store indexed by
  reference, so that the handle can be told apart from the map it points to; every method
  reads and writes the map through the store.
\<close>

record 'k entry =
  entry_map :: nat
  entry_key :: 'k

type_synonym ('k, 't) store = "nat \<Rightarrow> ('k, 't) hashmap"

definition entry :: "nat \<Rightarrow> 'k \<Rightarrow> 'k entry" where
  "entry this key = \<lparr> entry_map = this, entry_key = key \<rparr>"

definition entry_set ::
  "'k hasher \<Rightarrow> 'k entry \<Rightarrow> 't \<Rightarrow> ('k, 't) store \<Rightarrow> error + ('k, 't) store" where
  "entry_set hs this value \<sigma> =
     (case set_hm hs (\<sigma> (entry_map this)) (entry_key this) value of
        Inl e \<Rightarrow> Inl e
      | Inr m' \<Rightarrow> Inr (\<sigma>(entry_map this := m')))"

definition entry_get :: "'k hasher \<Rightarrow> 'k entry \<Rightarrow> ('k, 't) store \<Rightarrow> error + 't option" where
  "entry_get hs this \<sigma> = get hs (\<sigma> (entry_map this)) (entry_key this)"

text \<open>
  \<open>orInsertWith\<close> returns the handle and the store; the third component is the list of
  arguments with which \<open>fn\<close> was called, in order.
\<close>

definition orInsertWith ::
  "'k hasher \<Rightarrow> 'k entry \<Rightarrow> ('k \<Rightarrow> 't) \<Rightarrow> ('k, 't) store \<Rightarrow>
   error + ('k entry \<times> ('k, 't) store \<times> 'k list)" where
  "orInsertWith hs this fn \<sigma> =
     (case entry_get hs this \<sigma> of
        Inl e \<Rightarrow> Inl e
      | Inr (Some _) \<Rightarrow> Inr (this, \<sigma>, [])
      | Inr None \<Rightarrow>
          (case entry_set hs this (fn (entry_key this)) \<sigma> of
             Inl e \<Rightarrow> Inl e
           | Inr \<sigma>' \<Rightarrow> Inr (this, \<sigma>', [entry_key this])))"

section \<open>Reachable states, hasher laws and the words of the specification\<close>

text \<open>
  The states of a map that the public operations can produce: the constructor and
  \<open>withCapacity\<close> make one, every mutating method that returns normally leads from one
  to the next. (\<open>from\<close> is \<open>withCapacity\<close> followed by \<open>set\<close>; \<open>drain\<close>
  changes the map by \<open>clear\<close>; the methods of \<open>Entry\<close> call \<open>get\<close>, \<open>set\<close>
  and \<open>remove\<close>.)
\<close>

inductive reachable :: "'k hasher \<Rightarrow> ('k, 't) hashmap \<Rightarrow> bool" for hs :: "'k hasher" where
  reach_new: "reachable hs new_HashMap"
| reach_withCapacity: "withCapacity hs n = Inr m \<Longrightarrow> reachable hs m"
| reach_set: "reachable hs m \<Longrightarrow> set_hm hs m key value = Inr m' \<Longrightarrow> reachable hs m'"
| reach_remove: "reachable hs m \<Longrightarrow> remove hs m key = Inr (r, m') \<Longrightarrow> reachable hs m'"
| reach_reserve: "reachable hs m \<Longrightarrow> reserve hs m n = Inr m' \<Longrightarrow> reachable hs m'"
| reach_shrinkToFit: "reachable hs m \<Longrightarrow> shrinkToFit hs m = Inr m' \<Longrightarrow> reachable hs m'"
| reach_shrinkTo: "reachable hs m \<Longrightarrow> shrinkTo hs m n = Inr m' \<Longrightarrow> reachable hs m'"
| reach_clear: "reachable hs m \<Longrightarrow> reachable hs (clear m)"
| reach_map: "reachable hs m \<Longrightarrow> reachable hs (map_hm fn m)"
| reach_retain: "reachable hs m \<Longrightarrow> reachable hs (retain pred m)"

text \<open>
  What the map assumes of a hasher: \<open>equals\<close> is an equivalence relation and equal keys
  have the same hash.
\<close>

definition lawful :: "'k hasher \<Rightarrow> bool" where
  "lawful hs \<longleftrightarrow>
     (\<forall>a. equals hs a a) \<and>
     (\<forall>a b. equals hs a b \<longrightarrow> equals hs b a) \<and>
     (\<forall>a b c. equals hs a b \<longrightarrow> equals hs b c \<longrightarrow> equals hs a c) \<and>
     (\<forall>a b. equals hs a b \<longrightarrow> hash hs a = hash hs b)"

text \<open>Every pair sits in the bucket that \<open>getBucket\<close> finds for its key.\<close>

definition placed :: "'k hasher \<Rightarrow> ('k, 't) hashmap \<Rightarrow> bool" where
  "placed hs m \<longleftrightarrow>
     (\<forall>i < length (buckets m). \<forall>p \<in> set (buckets m ! i). getBucket hs m (fst p) = Inr i)"

text \<open>
  The bucket array is empty or has \<open>2 ^ k\<close> buckets with \<open>k \<le> 30\<close>, every pair is
  in its bucket, and the count is the number of pairs stored.
\<close>

definition invar :: "'k hasher \<Rightarrow> ('k, 't) hashmap \<Rightarrow> bool" where
  "invar hs m \<longleftrightarrow>
     (length (buckets m) = 0 \<or> (\<exists>k \<le> 30. length (buckets m) = 2 ^ k)) \<and>
     placed hs m \<and>
     count_hm m = int (length (iterator m))"

text \<open>
  The value most recently set for \<open>key\<close> by a sequence of \<open>set\<close> calls, \<open>r\<close> when
  the sequence sets none.
\<close>

fun last_write :: "'k hasher \<Rightarrow> 'k \<Rightarrow> ('k \<times> 't) list \<Rightarrow> 't option \<Rightarrow> 't option" where
  "last_write hs key [] r = r"
| "last_write hs key ((k, v) # ops) r =
     last_write hs key ops (if equals hs key k then Some v else r)"

text \<open>
  The bucket index in the words of the specification: the hash modulo the number of
  buckets.
\<close>

definition spec_bucket_index :: "int \<Rightarrow> nat \<Rightarrow> int" where
  "spec_bucket_index h n = h mod int n"

section \<open>Arithmetic of the 32-bit operators and of the load threshold\<close>

lemma bitand32_mask:
  assumes "k < 32"
  shows "bitand32 a (2 ^ k - 1) = a mod 2 ^ k"
proof -
  have "(word_of_int a :: 32 word) AND word_of_int (2 ^ k - 1) = word_of_int a AND mask k"
    by (simp add: mask_eq_exp_minus_1)
  also have "\<dots> = word_of_int (take_bit k a)"
    by (rule and_mask_wi)
  finally have e: "(word_of_int a :: 32 word) AND word_of_int (2 ^ k - 1) = word_of_int (take_bit k a)" .
  have "take_bit k a < (2 :: int) ^ k"
    by simp
  also have "(2 :: int) ^ k \<le> 2 ^ 31"
    using assms by (intro power_increasing) auto
  finally have lt: "take_bit k a < (2 :: int) ^ 31" .
  have "sint (word_of_int (take_bit k a) :: 32 word) = signed_take_bit 31 (take_bit k a)"
    by (simp add: sint_sbintrunc')
  also have "\<dots> = take_bit k a"
  proof (rule signed_take_bit_int_eq_self)
    show "- (2 ^ 31) \<le> take_bit k a"
      by (rule order_trans [of _ 0]) simp_all
    show "take_bit k a < 2 ^ 31" by (rule lt)
  qed
  finally have "sint (word_of_int (take_bit k a) :: 32 word) = take_bit k a" .
  then show ?thesis
    unfolding bitand32_def e by (simp add: take_bit_eq_mod)
qed

lemma bit_length_0: "n \<le> 0 \<Longrightarrow> bit_length n = 0"
  by (simp add: bit_length.simps)

lemma bit_length_pos: "0 < n \<Longrightarrow> bit_length n = Suc (bit_length (n div 2))"
  by (subst bit_length.simps) simp

lemma bit_length_bounds:
  "0 < n \<Longrightarrow> 2 ^ (bit_length n - 1) \<le> n \<and> n < 2 ^ bit_length n"
proof (induction n rule: bit_length.induct)
  case (1 n)
  show ?case
  proof (cases "n = 1")
    case True
    then show ?thesis
      by (simp add: bit_length_pos bit_length_0)
  next
    case False
    with 1(2) have h: "0 < n div 2" by auto
    with 1 have ih: "2 ^ (bit_length (n div 2) - 1) \<le> n div 2 \<and> n div 2 < 2 ^ bit_length (n div 2)"
      by auto
    have e: "bit_length n = Suc (bit_length (n div 2))"
      using 1(2) by (rule bit_length_pos)
    obtain b where b: "bit_length (n div 2) = Suc b"
      using h by (auto simp: bit_length_pos)
    from ih b have "2 * 2 ^ b \<le> n" "n < 2 * (2 * 2 ^ b)"
      by auto
    then show ?thesis
      by (simp add: e b)
  qed
qed

lemma bit_length_le:
  assumes "n < 2 ^ k"
  shows "bit_length n \<le> k"
proof (cases "0 < n")
  case True
  then have "(2::int) ^ (bit_length n - 1) \<le> n"
    using bit_length_bounds by blast
  with assms have "(2::int) ^ (bit_length n - 1) < 2 ^ k"
    by linarith
  then have "bit_length n - 1 < k"
    by simp
  then show ?thesis by simp
next
  case False
  then show ?thesis by (simp add: bit_length_0)
qed

lemma shl32_one:
  assumes "b \<le> 30"
  shows "shl32 1 (int b) = 2 ^ b"
proof -
  have "nat (int b mod 32) = b"
    using assms by simp
  moreover have "sint (2 ^ b :: 32 word) = 2 ^ b"
  proof -
    have "sint (2 ^ b :: 32 word) = sint (word_of_int (2 ^ b) :: 32 word)"
      by (simp only: word_of_int_2p)
    also have "\<dots> = signed_take_bit 31 (2 ^ b)"
      by (subst sint_sbintrunc') simp
    also have "\<dots> = 2 ^ b"
    proof (rule signed_take_bit_int_eq_self)
      show "- (2 ^ 31) \<le> (2::int) ^ b"
        by (rule order_trans [of _ 0]) simp_all
      show "(2::int) ^ b < 2 ^ 31"
        by (rule power_strict_increasing) (use assms in simp_all)
    qed
    finally show ?thesis .
  qed
  ultimately show ?thesis
    by (simp add: shl32_def)
qed

text \<open>
  Up to \<open>2 ^ 30\<close> the rounding of \<open>resize\<close> gives the least power of two that is at
  least the number asked for.
\<close>

lemma bucketCountFinal_pow2:
  assumes "n \<le> 2 ^ 30"
  shows "\<exists>k \<le> 30. bucketCountFinal n = 2 ^ k \<and> n \<le> 2 ^ k \<and> (0 < k \<longrightarrow> 2 ^ (k - 1) < n)"
proof -
  define x where "x = max n 1 - 1"
  have x: "0 \<le> x" "x < 2 ^ 30"
    using assms by (auto simp: x_def)
  have "uint (word_of_int x :: 32 word) = x mod 2 ^ 32"
    by (simp add: uint_word_of_int)
  also have "\<dots> = x"
    using x by simp
  finally have u: "uint (word_of_int x :: 32 word) = x" .
  define b where "b = bit_length x"
  have b30: "b \<le> 30"
    unfolding b_def using x(2) by (rule bit_length_le)
  have "bucketCountFinal n = shl32 1 (int b)"
    unfolding bucketCountFinal_def clz32_def x_def [symmetric] u b_def by simp
  then have e: "bucketCountFinal n = 2 ^ b"
    using b30 by (simp add: shl32_one)
  have up: "n \<le> 2 ^ b"
  proof (cases "0 < x")
    case True
    then have "x < 2 ^ b"
      unfolding b_def using bit_length_bounds by blast
    then show ?thesis by (simp add: x_def)
  next
    case False
    with x have "x = 0" by simp
    then have "n \<le> 1" by (simp add: x_def)
    moreover have "(1::int) \<le> 2 ^ b" by simp
    ultimately show ?thesis by linarith
  qed
  have low: "0 < b \<longrightarrow> 2 ^ (b - 1) < n"
  proof
    assume "0 < b"
    then have "0 < x"
      unfolding b_def by (cases "0 < x") (simp_all add: bit_length_0)
    then have "2 ^ (b - 1) \<le> x"
      unfolding b_def using bit_length_bounds by blast
    moreover have "(1::int) \<le> 2 ^ (b - 1)"
      by simp
    ultimately show "2 ^ (b - 1) < n"
      unfolding x_def by linarith
  qed
  from b30 e up low show ?thesis by blast
qed

lemma bucketCountFinal_fix:
  assumes "j \<le> 30"
  shows "bucketCountFinal (2 ^ j) = 2 ^ j"
proof -
  have "(2::int) ^ j \<le> 2 ^ 30"
    by (rule power_increasing) (use assms in simp_all)
  then obtain k where k: "k \<le> 30" "bucketCountFinal (2 ^ j) = 2 ^ k" "(2::int) ^ j \<le> 2 ^ k"
    "0 < k \<longrightarrow> (2::int) ^ (k - 1) < 2 ^ j"
    using bucketCountFinal_pow2 by blast
  from k(3) have "j \<le> k" by simp
  moreover have "k \<le> j"
  proof (cases "0 < k")
    case True
    with k(4) have "k - 1 < j" by simp
    then show ?thesis by simp
  next
    case False
    then show ?thesis by simp
  qed
  ultimately show ?thesis using k(2) by simp
qed

lemma floor_threshold: "\<lfloor>of_nat n * loadThreshold\<rfloor> = (3 * int n) div 4"
  unfolding loadThreshold_def by linarith

lemma ceiling_times_threshold: "\<lceil>of_int x * loadThreshold\<rceil> = - ((- 3 * x) div 4)"
  unfolding loadThreshold_def by linarith

lemma ceiling_over_threshold: "\<lceil>of_int x / loadThreshold\<rceil> = - ((- 4 * x) div 3)"
proof -
  have "- (of_int x / loadThreshold) = (of_int (- 4 * x) / of_int 3 :: rat)"
    by (simp add: loadThreshold_def)
  then have "\<lfloor>- (of_int x / loadThreshold)\<rfloor> = (- 4 * x) div 3"
    by (simp only: floor_divide_of_int_eq)
  then show ?thesis
    by (simp add: ceiling_def)
qed

lemma over_threshold_iff:
  assumes "0 < n"
  shows "(of_int c / of_nat n > loadThreshold) = (4 * c > 3 * int n)"
proof -
  have "(3 / 4 < (of_int c :: rat) / of_nat n) = ((3 / 4) * of_nat n < (of_int c :: rat))"
    using assms by (simp add: pos_less_divide_eq)
  also have "\<dots> = ((of_int (3 * int n) :: rat) < of_int (4 * c))"
    by (simp add: field_simps)
  also have "\<dots> = (3 * int n < 4 * c)"
    by (simp only: of_int_less_iff)
  finally show ?thesis
    by (simp add: loadThreshold_def)
qed

section \<open>Scanning a bucket\<close>

lemma get_scan_None_iff:
  "get_scan hs key b = None \<longleftrightarrow> (\<forall>p \<in> set b. \<not> equals hs key (fst p))"
  by (induction b) (auto split: if_splits)

lemma get_scan_append:
  "get_scan hs key (xs @ ys) =
     (case get_scan hs key xs of Some v \<Rightarrow> Some v | None \<Rightarrow> get_scan hs key ys)"
  by (induction xs) auto

lemma get_scan_filter:
  "(\<forall>p \<in> set b. equals hs key (fst p) \<longrightarrow> P p) \<Longrightarrow>
   get_scan hs key (filter P b) = get_scan hs key b"
  by (induction b) auto

lemma get_scan_concat_other:
  assumes "\<forall>b \<in> set bs. \<forall>p \<in> set b. \<not> equals hs key (fst p)"
  shows "get_scan hs key (concat bs) = None"
  using assms by (simp add: get_scan_None_iff)

lemma get_scan_concat_nth:
  assumes "i < length bs"
    and "\<forall>j < length bs. j \<noteq> i \<longrightarrow> (\<forall>p \<in> set (bs ! j). \<not> equals hs key (fst p))"
  shows "get_scan hs key (concat bs) = get_scan hs key (bs ! i)"
proof -
  have split: "bs = take i bs @ bs ! i # drop (Suc i) bs"
    using assms(1) by (rule id_take_nth_drop)
  have before: "get_scan hs key (concat (take i bs)) = None"
  proof (rule get_scan_concat_other, intro ballI)
    fix b p assume "b \<in> set (take i bs)" "p \<in> set b"
    then obtain j where j: "j < i" "b = bs ! j"
      using assms(1) by (auto simp: in_set_conv_nth)
    then have "j < length bs" "j \<noteq> i"
      using assms(1) by auto
    with assms(2) j(2) \<open>p \<in> set b\<close> show "\<not> equals hs key (fst p)" by blast
  qed
  have after: "get_scan hs key (concat (drop (Suc i) bs)) = None"
  proof (rule get_scan_concat_other, intro ballI)
    fix b p assume "b \<in> set (drop (Suc i) bs)" "p \<in> set b"
    then obtain j where j: "j < length bs - Suc i" "b = bs ! (Suc i + j)"
      by (auto simp: in_set_conv_nth)
    then have "Suc i + j < length bs" "Suc i + j \<noteq> i"
      by auto
    with assms(2) j(2) \<open>p \<in> set b\<close> show "\<not> equals hs key (fst p)" by blast
  qed
  have "concat bs = concat (take i bs) @ bs ! i @ concat (drop (Suc i) bs)"
    by (subst split) simp
  then show ?thesis
    by (simp add: get_scan_append before after split: option.splits)
qed

lemma set_scan_None_iff:
  "set_scan hs key value b = None \<longleftrightarrow> get_scan hs key b = None"
  by (induction b) (auto split: if_splits)

lemma set_scan_Some:
  "set_scan hs key value b = Some b' \<Longrightarrow>
   \<exists>xs k v0 ys. b = xs @ (k, v0) # ys \<and> b' = xs @ (k, value) # ys \<and> equals hs key k \<and>
     (\<forall>p \<in> set xs. \<not> equals hs key (fst p)) \<and> get_scan hs key b = Some v0"
proof (induction b arbitrary: b')
  case Nil
  then show ?case by simp
next
  case (Cons p b)
  obtain k v where p: "p = (k, v)" by (cases p)
  show ?case
  proof (cases "equals hs key k")
    case True
    with Cons.prems p have "b' = (k, value) # b" by simp
    with True p show ?thesis
      by (intro exI [of _ "[]"] exI [of _ k] exI [of _ v] exI [of _ b]) simp
  next
    case False
    with Cons.prems p obtain r where r: "set_scan hs key value b = Some r" "b' = (k, v) # r"
      by auto
    from Cons.IH [OF r(1)] obtain xs k0 v0 ys where
      "b = xs @ (k0, v0) # ys" "r = xs @ (k0, value) # ys" "equals hs key k0"
      "\<forall>p \<in> set xs. \<not> equals hs key (fst p)" "get_scan hs key b = Some v0"
      by blast
    with False p r(2) show ?thesis
      by (intro exI [of _ "(k, v) # xs"] exI [of _ k0] exI [of _ v0] exI [of _ ys]) simp
  qed
qed

lemma set_scan_keys:
  "set_scan hs key value b = Some b' \<Longrightarrow> map fst b' = map fst b"
  by (induction b arbitrary: b') (auto split: if_splits)

lemma set_scan_length:
  "set_scan hs key value b = Some b' \<Longrightarrow> length b' = length b"
  by (drule set_scan_keys) (metis length_map)

lemma remove_scan_None_iff:
  "remove_scan hs key b = None \<longleftrightarrow> get_scan hs key b = None"
  by (induction b) (auto split: if_splits)

lemma remove_scan_Some:
  "remove_scan hs key b = Some (v, b') \<Longrightarrow>
   \<exists>xs k ys. b = xs @ (k, v) # ys \<and> b' = xs @ ys \<and> equals hs key k \<and>
     (\<forall>p \<in> set xs. \<not> equals hs key (fst p)) \<and> get_scan hs key b = Some v"
proof (induction b arbitrary: b')
  case Nil
  then show ?case by simp
next
  case (Cons p b)
  obtain k w where p: "p = (k, w)" by (cases p)
  show ?case
  proof (cases "equals hs key k")
    case True
    with Cons.prems p have "v = w" "b' = b" by simp_all
    with True p show ?thesis
      by (intro exI [of _ "[]"] exI [of _ k] exI [of _ b]) simp
  next
    case False
    with Cons.prems p obtain r where r: "remove_scan hs key b = Some (v, r)" "b' = (k, w) # r"
      by auto
    from Cons.IH [OF r(1)] obtain xs k0 ys where
      "b = xs @ (k0, v) # ys" "r = xs @ ys" "equals hs key k0"
      "\<forall>p \<in> set xs. \<not> equals hs key (fst p)" "get_scan hs key b = Some v"
      by blast
    with False p r(2) show ?thesis
      by (intro exI [of _ "(k, w) # xs"] exI [of _ k0] exI [of _ ys]) simp
  qed
qed

lemma remove_scan_get_scan:
  "get_scan hs key b = Some v \<Longrightarrow> \<exists>b'. remove_scan hs key b = Some (v, b')"
  by (induction b) auto

subsection \<open>Reading after writing, for a lawful hasher\<close>

lemma lawful_refl: "lawful hs \<Longrightarrow> equals hs a a"
  and lawful_sym: "lawful hs \<Longrightarrow> equals hs a b \<Longrightarrow> equals hs b a"
  and lawful_trans: "lawful hs \<Longrightarrow> equals hs a b \<Longrightarrow> equals hs b c \<Longrightarrow> equals hs a c"
  and lawful_hash: "lawful hs \<Longrightarrow> equals hs a b \<Longrightarrow> hash hs a = hash hs b"
  unfolding lawful_def by blast+

lemma get_scan_set_scan:
  assumes "lawful hs"
  shows "set_scan hs key value b = Some b' \<Longrightarrow>
         get_scan hs k' b' = (if equals hs k' key then Some value else get_scan hs k' b)"
proof (induction b arbitrary: b')
  case Nil
  then show ?case by simp
next
  case (Cons p b)
  obtain k v where p: "p = (k, v)" by (cases p)
  show ?case
  proof (cases "equals hs key k")
    case True
    with Cons.prems p have b': "b' = (k, value) # b" by simp
    have "equals hs k' k \<longleftrightarrow> equals hs k' key"
      using True assms by (blast intro: lawful_sym lawful_trans)
    then show ?thesis
      by (simp add: b' p)
  next
    case False
    with Cons.prems p obtain r where r: "set_scan hs key value b = Some r" "b' = (k, v) # r"
      by auto
    have "\<not> (equals hs k' k \<and> equals hs k' key)"
      using False assms by (blast intro: lawful_sym lawful_trans)
    then show ?thesis
      using Cons.IH [OF r(1)] by (auto simp: r(2) p)
  qed
qed

lemma get_scan_push:
  assumes "lawful hs" and "get_scan hs key b = None"
  shows "get_scan hs k' (b @ [(key, value)]) =
         (if equals hs k' key then Some value else get_scan hs k' b)"
proof (cases "equals hs k' key")
  case True
  have "get_scan hs k' b = None"
    unfolding get_scan_None_iff
  proof
    fix p assume "p \<in> set b"
    with assms(2) have "\<not> equals hs key (fst p)"
      by (simp add: get_scan_None_iff)
    then show "\<not> equals hs k' (fst p)"
      using True assms(1) by (blast intro: lawful_sym lawful_trans)
  qed
  with True show ?thesis
    by (simp add: get_scan_append)
next
  case False
  then show ?thesis
    by (simp add: get_scan_append split: option.splits)
qed

lemma get_scan_remove_scan:
  assumes "lawful hs"
  shows "remove_scan hs key b = Some (v, b') \<Longrightarrow> \<not> equals hs k' key \<Longrightarrow>
         get_scan hs k' b' = get_scan hs k' b"
proof (induction b arbitrary: b')
  case Nil
  then show ?case by simp
next
  case (Cons p b)
  obtain k w where p: "p = (k, w)" by (cases p)
  show ?case
  proof (cases "equals hs key k")
    case True
    with Cons.prems p have "b' = b" by simp
    moreover have "\<not> equals hs k' k"
      using True Cons.prems(2) assms by (blast intro: lawful_sym lawful_trans)
    ultimately show ?thesis
      by (simp add: p)
  next
    case False
    with Cons.prems p obtain r where r: "remove_scan hs key b = Some (v, r)" "b' = (k, w) # r"
      by auto
    then show ?thesis
      using Cons.IH [OF r(1) Cons.prems(2)] by (simp add: p)
  qed
qed

section \<open>Bucket indices and resize\<close>

lemma getBucket_pow2:
  assumes "length (buckets m) = 2 ^ k" and "k \<le> 30"
  shows "getBucket hs m key = Inr (nat (\<bar>hash hs key\<bar> mod 2 ^ k))"
proof -
  have "k < 32" using assms(2) by simp
  then have "bitand32 \<bar>hash hs key\<bar> (int (length (buckets m)) - 1) = \<bar>hash hs key\<bar> mod 2 ^ k"
    by (simp add: assms(1) bitand32_mask)
  then show ?thesis
    by (simp add: getBucket_def assms(1))
qed

lemma getBucket_less:
  "getBucket hs m key = Inr i \<Longrightarrow> i < length (buckets m)"
  by (auto simp: getBucket_def Let_def split: if_splits)

lemma getBucket_cong:
  "length (buckets m') = length (buckets m) \<Longrightarrow> getBucket hs m' key = getBucket hs m key"
  by (simp add: getBucket_def)

lemma getBucket_equals:
  "lawful hs \<Longrightarrow> equals hs a b \<Longrightarrow> getBucket hs m a = getBucket hs m b"
  by (simp add: getBucket_def lawful_hash [of hs a b])

text \<open>
  When the mask is \<open>2 ^ k - 1\<close> and there are \<open>2 ^ k\<close> buckets, rehashing raises no
  error and appends to each bucket the pairs whose key falls there, in their order.
\<close>

lemma rehash_bucket_pow2:
  assumes "k \<le> 30"
  shows "length bs = 2 ^ k \<Longrightarrow>
    rehash_bucket hs (2 ^ k) ps bs =
      Inr (map (\<lambda>j. bs ! j @ filter (\<lambda>p. nat (\<bar>hash hs (fst p)\<bar> mod 2 ^ k) = j) ps) [0..<2 ^ k])"
proof (induction ps arbitrary: bs)
  case Nil
  have "map ((!) bs) [0..<2 ^ k] = bs"
    using Nil map_nth [of bs] by simp
  then show ?case
    by simp
next
  case (Cons p ps)
  obtain key v where p: "p = (key, v)" by (cases p)
  define i where "i = \<bar>hash hs key\<bar> mod 2 ^ k"
  have "k < 32" using assms by simp
  then have slot: "bitand32 \<bar>hash hs key\<bar> (2 ^ k - 1) = i"
    by (simp add: bitand32_mask i_def)
  have i: "0 \<le> i" "i < 2 ^ k"
    by (simp_all add: i_def)
  then have ni: "nat i < 2 ^ k"
    by (simp add: nat_less_iff)
  let ?bs = "bs[nat i := bs ! nat i @ [(key, v)]]"
  have len: "length ?bs = 2 ^ k"
    using Cons.prems by simp
  have "rehash_bucket hs (2 ^ k) (p # ps) bs = rehash_bucket hs (2 ^ k) ps ?bs"
    using i Cons.prems by (simp add: p slot)
  also have "\<dots> = Inr (map (\<lambda>j. ?bs ! j @ filter (\<lambda>p. nat (\<bar>hash hs (fst p)\<bar> mod 2 ^ k) = j) ps) [0..<2 ^ k])"
    by (rule Cons.IH [OF len])
  also have "map (\<lambda>j. ?bs ! j @ filter (\<lambda>p. nat (\<bar>hash hs (fst p)\<bar> mod 2 ^ k) = j) ps) [0..<2 ^ k] =
             map (\<lambda>j. bs ! j @ filter (\<lambda>p. nat (\<bar>hash hs (fst p)\<bar> mod 2 ^ k) = j) (p # ps)) [0..<2 ^ k]"
  proof (rule map_cong [OF refl])
    fix j assume "j \<in> set [0..<2 ^ k]"
    then have "j < length bs" using Cons.prems by simp
    then show "?bs ! j @ filter (\<lambda>p. nat (\<bar>hash hs (fst p)\<bar> mod 2 ^ k) = j) ps =
               bs ! j @ filter (\<lambda>p. nat (\<bar>hash hs (fst p)\<bar> mod 2 ^ k) = j) (p # ps)"
      by (auto simp: p i_def nth_list_update)
  qed
  finally show ?case .
qed

lemma rehash_all_pow2:
  assumes "k \<le> 30"
  shows "length bs = 2 ^ k \<Longrightarrow>
    rehash_all hs (2 ^ k) old bs =
      Inr (map (\<lambda>j. bs ! j @ filter (\<lambda>p. nat (\<bar>hash hs (fst p)\<bar> mod 2 ^ k) = j) (concat old)) [0..<2 ^ k])"
proof (induction old arbitrary: bs)
  case Nil
  have "map ((!) bs) [0..<2 ^ k] = bs"
    using Nil map_nth [of bs] by simp
  then show ?case
    by simp
next
  case (Cons b old)
  let ?f = "\<lambda>ps j. filter (\<lambda>p. nat (\<bar>hash hs (fst p)\<bar> mod 2 ^ k) = j) ps"
  let ?bs = "map (\<lambda>j. bs ! j @ ?f b j) [0..<2 ^ k]"
  have len: "length ?bs = 2 ^ k" by simp
  have "rehash_all hs (2 ^ k) (b # old) bs = rehash_all hs (2 ^ k) old ?bs"
    by (simp add: rehash_bucket_pow2 [OF assms Cons.prems])
  also have "\<dots> = Inr (map (\<lambda>j. ?bs ! j @ ?f (concat old) j) [0..<2 ^ k])"
    by (rule Cons.IH [OF len])
  also have "map (\<lambda>j. ?bs ! j @ ?f (concat old) j) [0..<2 ^ k] =
             map (\<lambda>j. bs ! j @ ?f (concat (b # old)) j) [0..<2 ^ k]"
    by (rule map_cong [OF refl]) simp
  finally show ?case .
qed

text \<open>
  When the rounding of \<open>resize\<close> gives \<open>2 ^ k\<close> with \<open>k \<le> 30\<close>, bucket \<open>j\<close> of
  the new array holds, in iteration order, the pairs whose key has index \<open>j\<close>.
\<close>

lemma resize_eq:
  assumes "bucketCountFinal n = 2 ^ k" and "k \<le> 30"
  shows "resize hs m n =
      Inr (m\<lparr>buckets :=
        map (\<lambda>j. filter (\<lambda>p. nat (\<bar>hash hs (fst p)\<bar> mod 2 ^ k) = j) (iterator m)) [0..<2 ^ k]\<rparr>)"
proof -
  have n: "nat (2 ^ k) = (2::nat) ^ k"
    by (simp add: nat_power_eq)
  have len: "length (replicate (2 ^ k) ([] :: ('a \<times> 'b) list)) = 2 ^ k"
    by simp
  show ?thesis
    unfolding resize_def assms(1) Let_def n rehash_all_pow2 [OF assms(2) len]
    by (simp add: iterator_def cong: map_cong)
qed

lemma resize_pow2:
  assumes "n \<le> 2 ^ 30"
  shows "\<exists>k \<le> 30. n \<le> 2 ^ k \<and> (0 < k \<longrightarrow> 2 ^ (k - 1) < n) \<and>
    resize hs m n =
      Inr (m\<lparr>buckets :=
        map (\<lambda>j. filter (\<lambda>p. nat (\<bar>hash hs (fst p)\<bar> mod 2 ^ k) = j) (iterator m)) [0..<2 ^ k]\<rparr>)"
proof -
  from bucketCountFinal_pow2 [OF assms] obtain k where k:
    "k \<le> 30" "bucketCountFinal n = 2 ^ k" "n \<le> 2 ^ k" "0 < k \<longrightarrow> 2 ^ (k - 1) < n"
    by blast
  from resize_eq [OF k(2) k(1)] k show ?thesis by blast
qed

text \<open>
  Beyond \<open>2 ^ 30\<close> the shift of the rounding overflows: the result is \<open>- 2 ^ 31\<close>, which
  makes an empty bucket array, or a power of two again.
\<close>

lemma bucketCountFinal_range:
  "bucketCountFinal n = - (2 ^ 31) \<or> (\<exists>k \<le> 30. bucketCountFinal n = 2 ^ k)"
proof -
  define x where "x = max n 1 - 1"
  define b where "b = bit_length (uint (word_of_int x :: 32 word))"
  have "uint (word_of_int x :: 32 word) < 2 ^ 32"
    using uint_bounded [of "word_of_int x :: 32 word"] by simp
  then have b32: "b \<le> 32"
    unfolding b_def by (rule bit_length_le)
  have e: "bucketCountFinal n = shl32 1 (int b)"
    unfolding bucketCountFinal_def clz32_def x_def [symmetric] b_def by simp
  consider "b \<le> 30" | "b = 31" | "b = 32"
    using b32 by linarith
  then show ?thesis
  proof cases
    case 1
    then show ?thesis using e by (auto simp: shl32_one)
  next
    case 2
    then have "bucketCountFinal n = - (2 ^ 31)"
      by (simp add: e shl32_def)
    then show ?thesis by simp
  next
    case 3
    then have "bucketCountFinal n = 2 ^ 0"
      by (simp add: e shl32_def)
    then show ?thesis by blast
  qed
qed

lemma rehash_bucket_no_buckets:
  "rehash_bucket hs n ps [] = Inr bs \<Longrightarrow> ps = [] \<and> bs = []"
  by (cases ps) (auto simp: Let_def split: if_splits)

lemma rehash_all_no_buckets:
  "rehash_all hs n old [] = Inr bs \<Longrightarrow> concat old = [] \<and> bs = []"
proof (induction old)
  case Nil
  then show ?case by simp
next
  case (Cons b old)
  then show ?case
    by (auto split: sum.splits dest!: rehash_bucket_no_buckets)
qed

lemma resize_negative:
  assumes "bucketCountFinal n = - (2 ^ 31)" and "resize hs m n = Inr m'"
  shows "iterator m = [] \<and> m' = m\<lparr>buckets := []\<rparr>"
  using assms(2) unfolding resize_def assms(1) Let_def
  by (auto simp: iterator_def split: sum.splits dest!: rehash_all_no_buckets)

lemma mset_concat_slots:
  "mset (concat (map (\<lambda>j. filter (\<lambda>p. f p = j) xs) [0..<n])) = mset (filter (\<lambda>p. f p < n) xs)"
proof (induction n)
  case 0
  then show ?case by simp
next
  case (Suc n)
  have "mset (filter (\<lambda>p. f p < n) xs) + mset (filter (\<lambda>p. f p = n) xs) =
        mset (filter (\<lambda>p. f p < Suc n) xs)"
    by (induction xs) (auto simp: less_Suc_eq)
  with Suc show ?case
    by simp
qed

lemma slot_less: "nat (\<bar>h\<bar> mod 2 ^ k) < 2 ^ k"
  by (simp add: nat_less_iff)

lemma resize_result:
  assumes "n \<le> 2 ^ 30"
  obtains k m' where "k \<le> 30" "n \<le> 2 ^ k" "0 < k \<longrightarrow> 2 ^ (k - 1) < n"
    "resize hs m n = Inr m'" "length (buckets m') = 2 ^ k" "count_hm m' = count_hm m"
    "\<And>j. j < 2 ^ k \<Longrightarrow>
       buckets m' ! j = filter (\<lambda>p. nat (\<bar>hash hs (fst p)\<bar> mod 2 ^ k) = j) (iterator m)"
    "mset (iterator m') = mset (iterator m)"
    "length (iterator m') = length (iterator m)"
proof -
  from resize_pow2 [OF assms, of hs m] obtain k where k:
    "k \<le> 30" "n \<le> 2 ^ k" "0 < k \<longrightarrow> 2 ^ (k - 1) < n"
    "resize hs m n =
      Inr (m\<lparr>buckets :=
        map (\<lambda>j. filter (\<lambda>p. nat (\<bar>hash hs (fst p)\<bar> mod 2 ^ k) = j) (iterator m)) [0..<2 ^ k]\<rparr>)"
    by blast
  define m' where "m' = m\<lparr>buckets :=
        map (\<lambda>j. filter (\<lambda>p. nat (\<bar>hash hs (fst p)\<bar> mod 2 ^ k) = j) (iterator m)) [0..<2 ^ k]\<rparr>"
  have all: "filter (\<lambda>p. nat (\<bar>hash hs (fst p)\<bar> mod 2 ^ k) < 2 ^ k) (iterator m) = iterator m"
    by (simp add: slot_less)
  have "iterator m' =
      concat (map (\<lambda>j. filter (\<lambda>p. nat (\<bar>hash hs (fst p)\<bar> mod 2 ^ k) = j) (iterator m)) [0..<2 ^ k])"
    by (simp add: iterator_def m'_def)
  then have "mset (iterator m') =
      mset (filter (\<lambda>p. nat (\<bar>hash hs (fst p)\<bar> mod 2 ^ k) < 2 ^ k) (iterator m))"
    by (simp only: mset_concat_slots)
  then have ms: "mset (iterator m') = mset (iterator m)"
    by (simp only: all)
  have "size (mset (iterator m')) = size (mset (iterator m))"
    by (simp only: ms)
  then have ln: "length (iterator m') = length (iterator m)"
    by simp
  show ?thesis
  proof (rule that [of k m'])
    show "resize hs m n = Inr m'" by (simp add: k(4) m'_def)
    show "length (buckets m') = 2 ^ k" by (simp add: m'_def)
    show "count_hm m' = count_hm m" by (simp add: m'_def)
    show "\<And>j. j < 2 ^ k \<Longrightarrow>
       buckets m' ! j = filter (\<lambda>p. nat (\<bar>hash hs (fst p)\<bar> mod 2 ^ k) = j) (iterator m)"
      by (simp add: m'_def)
  qed (fact k ms ln)+
qed

section \<open>Invariants of the reachable states\<close>

lemma placed_nth:
  "placed hs m \<Longrightarrow> i < length (buckets m) \<Longrightarrow> p \<in> set (buckets m ! i) \<Longrightarrow>
   getBucket hs m (fst p) = Inr i"
  unfolding placed_def by blast

lemma invar_placed: "invar hs m \<Longrightarrow> placed hs m"
  and invar_count: "invar hs m \<Longrightarrow> count_hm m = int (length (concat (buckets m)))"
  by (simp_all add: invar_def iterator_def)

lemma invar_same_length:
  assumes "invar hs m" and "length (buckets m') = length (buckets m)" and "placed hs m'"
    and "count_hm m' = int (length (concat (buckets m')))"
  shows "invar hs m'"
  using assms by (simp add: invar_def iterator_def)

lemma placed_update:
  assumes "placed hs m" and "buckets m' = (buckets m)[i := b]"
    and "\<forall>p \<in> set b. getBucket hs m (fst p) = Inr i"
  shows "placed hs m'"
  unfolding placed_def
proof (intro allI impI ballI)
  fix j p assume j: "j < length (buckets m')" and p: "p \<in> set (buckets m' ! j)"
  have len: "length (buckets m') = length (buckets m)"
    by (simp add: assms(2))
  have "getBucket hs m (fst p) = Inr j"
  proof (cases "j = i")
    case True
    with j p len have "p \<in> set b" by (simp add: assms(2))
    with assms(3) True show ?thesis by blast
  next
    case False
    with p have "p \<in> set (buckets m ! j)" by (simp add: assms(2))
    with assms(1) j len show ?thesis by (simp add: placed_nth)
  qed
  then show "getBucket hs m' (fst p) = Inr j"
    by (simp add: getBucket_cong [OF len])
qed

lemma mset_concat_update:
  assumes "i < length bs"
  shows "mset (concat (bs[i := b])) + mset (bs ! i) = mset (concat bs) + mset b"
proof -
  have "concat bs = concat (take i bs) @ bs ! i @ concat (drop (Suc i) bs)"
    by (subst id_take_nth_drop [OF assms]) simp
  moreover have "concat (bs[i := b]) = concat (take i bs) @ b @ concat (drop (Suc i) bs)"
    by (simp add: upd_conv_take_nth_drop [OF assms])
  ultimately show ?thesis
    by (simp del: mset_concat)
qed

lemma length_concat_update:
  assumes "i < length bs"
  shows "int (length (concat (bs[i := b]))) =
         int (length (concat bs)) - int (length (bs ! i)) + int (length b)"
proof -
  have "size (mset (concat (bs[i := b])) + mset (bs ! i)) = size (mset (concat bs) + mset b)"
    by (simp only: mset_concat_update [OF assms])
  then show ?thesis
    by (simp del: mset_concat)
qed

lemma resize_Inr_cases:
  assumes "resize hs m n = Inr m'"
  obtains (empty) "iterator m = []" and "m' = m\<lparr>buckets := []\<rparr>"
  | (pow2) k where "k \<le> 30" and "bucketCountFinal n = 2 ^ k"
      and "m' = m\<lparr>buckets :=
        map (\<lambda>j. filter (\<lambda>p. nat (\<bar>hash hs (fst p)\<bar> mod 2 ^ k) = j) (iterator m)) [0..<2 ^ k]\<rparr>"
proof -
  from bucketCountFinal_range [of n] consider "bucketCountFinal n = - (2 ^ 31)"
    | k where "k \<le> 30" "bucketCountFinal n = 2 ^ k"
    by blast
  then show ?thesis
  proof cases
    case 1
    from resize_negative [OF 1 assms] show ?thesis by (intro empty) simp_all
  next
    case (2 k)
    from resize_eq [OF 2(2) 2(1), of hs m] assms 2 show ?thesis by (intro pow2 [of k]) simp_all
  qed
qed

lemma iterator_slots:
  "mset (concat (map (\<lambda>j. filter (\<lambda>p. nat (\<bar>hash hs (fst p)\<bar> mod 2 ^ k) = j) xs) [0..<2 ^ k])) = mset xs"
proof -
  have "filter (\<lambda>p. nat (\<bar>hash hs (fst p)\<bar> mod 2 ^ k) < 2 ^ k) xs = xs"
    by (simp add: slot_less)
  then show ?thesis
    by (simp only: mset_concat_slots)
qed

lemma resize_mset:
  assumes "resize hs m n = Inr m'"
  shows "mset (iterator m') = mset (iterator m)"
  using assms
proof (cases rule: resize_Inr_cases)
  case empty
  then show ?thesis by (simp add: iterator_def)
next
  case (pow2 k)
  have "iterator m' =
      concat (map (\<lambda>j. filter (\<lambda>p. nat (\<bar>hash hs (fst p)\<bar> mod 2 ^ k) = j) (iterator m)) [0..<2 ^ k])"
    by (simp add: iterator_def pow2(3))
  then show ?thesis
    by (simp only: iterator_slots)
qed

lemma resize_count: "resize hs m n = Inr m' \<Longrightarrow> count_hm m' = count_hm m"
  by (auto simp: resize_def Let_def split: sum.splits)

lemma resize_length_iterator:
  assumes "resize hs m n = Inr m'"
  shows "length (iterator m') = length (iterator m)"
proof -
  have "size (mset (iterator m')) = size (mset (iterator m))"
    by (simp only: resize_mset [OF assms])
  then show ?thesis by simp
qed

lemma resize_buckets:
  assumes "resize hs m n = Inr m'"
  shows "length (buckets m') = 0 \<or> (\<exists>k \<le> 30. length (buckets m') = 2 ^ k)"
  using assms by (cases rule: resize_Inr_cases) auto

lemma placed_resize:
  assumes "resize hs m n = Inr m'"
  shows "placed hs m'"
  using assms
proof (cases rule: resize_Inr_cases)
  case empty
  then show ?thesis by (simp add: placed_def)
next
  case (pow2 k)
  have len: "length (buckets m') = 2 ^ k"
    by (simp add: pow2(3))
  show ?thesis
    unfolding placed_def
  proof (intro allI impI ballI)
    fix j p assume "j < length (buckets m')" and "p \<in> set (buckets m' ! j)"
    then have "nat (\<bar>hash hs (fst p)\<bar> mod 2 ^ k) = j"
      by (simp add: pow2(3))
    then show "getBucket hs m' (fst p) = Inr j"
      by (simp add: getBucket_pow2 [OF len pow2(1)])
  qed
qed

lemma invar_resize:
  assumes "invar hs m" and "resize hs m n = Inr m'"
  shows "invar hs m'"
proof -
  have "count_hm m' = int (length (iterator m'))"
    using assms(1) by (simp add: invar_def resize_count [OF assms(2)] resize_length_iterator [OF assms(2)])
  with resize_buckets [OF assms(2)] placed_resize [OF assms(2)] show ?thesis
    unfolding invar_def by blast
qed

lemma invar_new: "invar hs new_HashMap"
proof -
  have "length (buckets (new_HashMap :: ('a, 'b) hashmap)) = 2 ^ 3"
    by (simp add: new_HashMap_def)
  then have "\<exists>k \<le> 30. length (buckets (new_HashMap :: ('a, 'b) hashmap)) = 2 ^ k"
    by (intro exI [of _ 3]) simp
  then show ?thesis
    by (simp add: invar_def placed_def new_HashMap_def iterator_def)
qed

lemma over_threshold_succ:
  assumes "0 < n"
  shows "(loadThreshold < (of_int c + 1) / of_nat n) = (3 * int n < 4 * c + 4)"
  using over_threshold_iff [OF assms, of "c + 1"] by simp

text \<open>The three ways in which \<open>set\<close> returns.\<close>

lemma set_hm_cases:
  assumes "set_hm hs m key value = Inr m'"
  obtains (overwrite) i b where "getBucket hs m key = Inr i"
      and "set_scan hs key value (buckets m ! i) = Some b"
      and "m' = m\<lparr>buckets := (buckets m)[i := b]\<rparr>"
  | (push) i where "getBucket hs m key = Inr i"
      and "set_scan hs key value (buckets m ! i) = None"
      and "\<not> 4 * (count_hm m + 1) > 3 * int (length (buckets m))"
      and "m' = m\<lparr>buckets := (buckets m)[i := buckets m ! i @ [(key, value)]],
                    count_hm := count_hm m + 1\<rparr>"
  | (grow) i where "getBucket hs m key = Inr i"
      and "set_scan hs key value (buckets m ! i) = None"
      and "4 * (count_hm m + 1) > 3 * int (length (buckets m))"
      and "resize hs (m\<lparr>buckets := (buckets m)[i := buckets m ! i @ [(key, value)]],
                         count_hm := count_hm m + 1\<rparr>) (int (length (buckets m)) * 2) = Inr m'"
proof -
  from assms obtain i where i: "getBucket hs m key = Inr i"
    by (auto simp: set_hm_def split: sum.splits)
  then have pos: "0 < length (buckets m)"
    using getBucket_less by fastforce
  show ?thesis
  proof (cases "set_scan hs key value (buckets m ! i)")
    case (Some b)
    with assms i show ?thesis
      by (intro overwrite [of i b]) (simp_all add: set_hm_def)
  next
    case None
    show ?thesis
    proof (cases "4 * (count_hm m + 1) > 3 * int (length (buckets m))")
      case True
      with assms i None pos show ?thesis
        by (intro grow [of i]) (simp_all add: set_hm_def Let_def over_threshold_succ)
    next
      case False
      with assms i None pos show ?thesis
        by (intro push [of i]) (simp_all add: set_hm_def Let_def over_threshold_succ)
    qed
  qed
qed

lemma set_scan_subset:
  "set_scan hs key value b = Some b' \<Longrightarrow> fst ` set b' = fst ` set b"
  by (drule set_scan_keys) (metis set_map)

lemma invar_overwrite:
  assumes "invar hs m" and "getBucket hs m key = Inr i"
    and "set_scan hs key value (buckets m ! i) = Some b"
  shows "invar hs (m\<lparr>buckets := (buckets m)[i := b]\<rparr>)"
proof -
  have i: "i < length (buckets m)"
    using assms(2) by (rule getBucket_less)
  have "\<forall>p \<in> set b. getBucket hs m (fst p) = Inr i"
  proof
    fix p assume "p \<in> set b"
    then have "fst p \<in> fst ` set (buckets m ! i)"
      using set_scan_subset [OF assms(3)] by blast
    then obtain q where "q \<in> set (buckets m ! i)" "fst q = fst p"
      by auto
    with invar_placed [OF assms(1)] i show "getBucket hs m (fst p) = Inr i"
      by (metis placed_nth)
  qed
  then have pl: "placed hs (m\<lparr>buckets := (buckets m)[i := b]\<rparr>)"
    by (intro placed_update [OF invar_placed [OF assms(1)], of _ i b]) simp_all
  have "int (length (concat ((buckets m)[i := b]))) = int (length (concat (buckets m)))"
    by (simp add: length_concat_update [OF i] set_scan_length [OF assms(3)])
  then show ?thesis
    by (intro invar_same_length [OF assms(1) _ pl]) (simp_all add: invar_count [OF assms(1)])
qed

lemma invar_push:
  assumes "invar hs m" and "getBucket hs m key = Inr i"
  shows "invar hs (m\<lparr>buckets := (buckets m)[i := buckets m ! i @ [(key, value)]],
                     count_hm := count_hm m + 1\<rparr>)"
proof -
  have i: "i < length (buckets m)"
    using assms(2) by (rule getBucket_less)
  have "\<forall>p \<in> set (buckets m ! i @ [(key, value)]). getBucket hs m (fst p) = Inr i"
    using assms(2) i placed_nth [OF invar_placed [OF assms(1)] i] by auto
  then have pl: "placed hs (m\<lparr>buckets := (buckets m)[i := buckets m ! i @ [(key, value)]],
                     count_hm := count_hm m + 1\<rparr>)"
    by (intro placed_update [OF invar_placed [OF assms(1)], of _ i "buckets m ! i @ [(key, value)]"])
      simp_all
  have "int (length (concat ((buckets m)[i := buckets m ! i @ [(key, value)]]))) =
      int (length (concat (buckets m))) + 1"
    by (simp add: length_concat_update [OF i])
  then show ?thesis
    by (intro invar_same_length [OF assms(1) _ pl]) (simp_all add: invar_count [OF assms(1)])
qed

lemma invar_set:
  assumes "invar hs m" and "set_hm hs m key value = Inr m'"
  shows "invar hs m'"
  using assms(2)
proof (cases rule: set_hm_cases)
  case (overwrite i b)
  with assms(1) show ?thesis by (simp add: invar_overwrite)
next
  case (push i)
  with assms(1) show ?thesis by (simp add: invar_push)
next
  case (grow i)
  from invar_push [OF assms(1) grow(1)] grow(4) show ?thesis
    by (rule invar_resize)
qed

lemma remove_scan_subset:
  "remove_scan hs key b = Some (v, b') \<Longrightarrow> set b' \<subseteq> set b \<and> Suc (length b') = length b"
  by (drule remove_scan_Some) auto

lemma invar_remove:
  assumes "invar hs m" and "remove hs m key = Inr (r, m')"
  shows "invar hs m'"
proof -
  from assms(2) obtain i where gi: "getBucket hs m key = Inr i"
    by (auto simp: remove_def split: sum.splits)
  then have i: "i < length (buckets m)"
    by (rule getBucket_less)
  show ?thesis
  proof (cases "remove_scan hs key (buckets m ! i)")
    case None
    with assms gi show ?thesis by (simp add: remove_def)
  next
    case (Some vb)
    obtain v b where vb: "vb = (v, b)" by (cases vb)
    with Some assms(2) gi have m': "m' = m\<lparr>buckets := (buckets m)[i := b], count_hm := count_hm m - 1\<rparr>"
      by (simp add: remove_def)
    from Some vb have sub: "set b \<subseteq> set (buckets m ! i)" "Suc (length b) = length (buckets m ! i)"
      using remove_scan_subset by fastforce+
    have "\<forall>p \<in> set b. getBucket hs m (fst p) = Inr i"
    proof
      fix p assume "p \<in> set b"
      with sub(1) have "p \<in> set (buckets m ! i)" by blast
      with invar_placed [OF assms(1)] i show "getBucket hs m (fst p) = Inr i"
        by (simp add: placed_nth)
    qed
    then have pl: "placed hs m'"
      by (intro placed_update [OF invar_placed [OF assms(1)], of _ i b]) (simp_all add: m')
    have "int (length (concat ((buckets m)[i := b]))) = int (length (concat (buckets m))) - 1"
      using sub(2) by (simp add: length_concat_update [OF i])
    then show ?thesis
      by (intro invar_same_length [OF assms(1) _ pl]) (simp_all add: invar_count [OF assms(1)] m')
  qed
qed

lemma invar_clear:
  assumes "invar hs m"
  shows "invar hs (clear m)"
  by (rule invar_same_length [OF assms]) (simp_all add: clear_def placed_def)

lemma getBucket_map_hm: "getBucket hs (map_hm fn m) key = getBucket hs m key"
  by (simp add: getBucket_def map_hm_def)

lemma invar_map:
  assumes "invar hs m"
  shows "invar hs (map_hm fn m)"
proof -
  have "placed hs (map_hm fn m)"
    unfolding placed_def
  proof (intro allI impI ballI)
    fix j p assume j: "j < length (buckets (map_hm fn m))" and "p \<in> set (buckets (map_hm fn m) ! j)"
    then obtain q where q: "q \<in> set (buckets m ! j)" "fst q = fst p"
      by (auto simp: map_hm_def)
    from j have "j < length (buckets m)"
      by (simp add: map_hm_def)
    with invar_placed [OF assms] q(1) have "getBucket hs m (fst q) = Inr j"
      by (simp add: placed_nth)
    then show "getBucket hs (map_hm fn m) (fst p) = Inr j"
      by (simp add: getBucket_map_hm q(2))
  qed
  moreover have "length (concat (buckets (map_hm fn m))) = length (concat (buckets m))"
    by (simp add: map_hm_def length_concat comp_def)
  ultimately show ?thesis
    by (intro invar_same_length [OF assms]) (simp_all add: invar_count [OF assms] map_hm_def)
qed

lemma retain_bucket_eq:
  "retain_bucket fn b c =
     (filter (\<lambda>(k, v). fn v k) b, c - int (length (filter (\<lambda>(k, v). \<not> fn v k) b)))"
  by (induction b) (auto split: prod.splits)

lemma retain_loop_eq:
  "retain_loop fn bs c =
     (map (filter (\<lambda>(k, v). fn v k)) bs,
      c - int (length (filter (\<lambda>(k, v). \<not> fn v k) (concat bs))))"
  by (induction bs arbitrary: c) (auto simp: retain_bucket_eq split: prod.splits)

lemma invar_retain:
  assumes "invar hs m"
  shows "invar hs (retain fn m)"
proof -
  let ?P = "\<lambda>(k, v). fn v k"
  have m': "retain fn m = m\<lparr>buckets := map (filter ?P) (buckets m),
      count_hm := count_hm m - int (length (filter (\<lambda>(k, v). \<not> fn v k) (concat (buckets m))))\<rparr>"
    by (simp add: retain_def retain_loop_eq)
  have len: "length (buckets (retain fn m)) = length (buckets m)"
    by (simp add: m')
  have "placed hs (retain fn m)"
    unfolding placed_def
  proof (intro allI impI ballI)
    fix j p assume j: "j < length (buckets (retain fn m))" and "p \<in> set (buckets (retain fn m) ! j)"
    then have "p \<in> set (buckets m ! j)"
      by (simp add: m')
    with invar_placed [OF assms] j len have "getBucket hs m (fst p) = Inr j"
      by (simp add: placed_nth)
    then show "getBucket hs (retain fn m) (fst p) = Inr j"
      by (simp add: getBucket_cong [OF len])
  qed
  moreover have "length (concat (map (filter ?P) (buckets m))) = length (filter ?P (concat (buckets m)))"
    by (simp add: filter_concat)
  moreover have "length (filter ?P (concat (buckets m))) +
      length (filter (\<lambda>(k, v). \<not> fn v k) (concat (buckets m))) = length (concat (buckets m))"
    using sum_length_filter_compl [of ?P "concat (buckets m)"]
    by (simp add: case_prod_unfold)
  ultimately show ?thesis
    by (intro invar_same_length [OF assms]) (simp_all add: invar_count [OF assms] m')
qed

lemma invar_if_resize:
  "(if c then resize hs m n else Inr m) = Inr m' \<Longrightarrow> invar hs m \<Longrightarrow> invar hs m'"
  by (cases c) (auto intro: invar_resize)

lemma invar_reserve: "invar hs m \<Longrightarrow> reserve hs m n = Inr m' \<Longrightarrow> invar hs m'"
  unfolding reserve_def Let_def by (rule invar_if_resize)

lemma invar_shrinkToFit: "invar hs m \<Longrightarrow> shrinkToFit hs m = Inr m' \<Longrightarrow> invar hs m'"
  unfolding shrinkToFit_def Let_def by (rule invar_if_resize)

lemma invar_if_shrink:
  "(if c1 then resize hs m n else if c2 then shrinkToFit hs m else Inr m) = Inr m' \<Longrightarrow>
   invar hs m \<Longrightarrow> invar hs m'"
  by (cases c1; cases c2) (auto intro: invar_resize invar_shrinkToFit)

lemma invar_shrinkTo: "invar hs m \<Longrightarrow> shrinkTo hs m n = Inr m' \<Longrightarrow> invar hs m'"
  unfolding shrinkTo_def Let_def by (rule invar_if_shrink)

lemma reachable_invar: "reachable hs m \<Longrightarrow> invar hs m"
proof (induction rule: reachable.induct)
  case reach_new
  show ?case by (rule invar_new)
next
  case (reach_withCapacity n m)
  then show ?case
    unfolding withCapacity_def by (rule invar_resize [OF invar_new])
next
  case (reach_set m key "value" m')
  then show ?case by (simp add: invar_set)
next
  case (reach_remove m key r m')
  then show ?case by (simp add: invar_remove)
next
  case (reach_reserve m n m')
  then show ?case by (simp add: invar_reserve)
next
  case (reach_shrinkToFit m m')
  then show ?case by (simp add: invar_shrinkToFit)
next
  case (reach_shrinkTo m n m')
  then show ?case by (simp add: invar_shrinkTo)
next
  case (reach_clear m)
  then show ?case by (simp add: invar_clear)
next
  case (reach_map m fn)
  then show ?case by (simp add: invar_map)
next
  case (reach_retain m pred)
  then show ?case by (simp add: invar_retain)
qed

section \<open>Looking up after an operation\<close>

text \<open>
  With a lawful hasher and every pair in its bucket, the scan of the key's bucket finds
  what a scan of all pairs in iteration order would find.
\<close>

lemma get_eq_scan:
  assumes "lawful hs" and "placed hs m" and "length (buckets m) = 2 ^ k" and "k \<le> 30"
  shows "get hs m key = Inr (get_scan hs key (iterator m))"
proof -
  define i where "i = nat (\<bar>hash hs key\<bar> mod 2 ^ k)"
  have gi: "getBucket hs m key = Inr i"
    unfolding i_def by (rule getBucket_pow2 [OF assms(3,4)])
  then have i: "i < length (buckets m)"
    by (rule getBucket_less)
  have other: "\<forall>j < length (buckets m). j \<noteq> i \<longrightarrow>
      (\<forall>p \<in> set (buckets m ! j). \<not> equals hs key (fst p))"
  proof (intro allI impI ballI notI)
    fix j p assume j: "j < length (buckets m)" "j \<noteq> i" and p: "p \<in> set (buckets m ! j)"
      and e: "equals hs key (fst p)"
    from placed_nth [OF assms(2) j(1) p] have "getBucket hs m (fst p) = Inr j" .
    moreover from getBucket_equals [OF assms(1) e] have "getBucket hs m key = getBucket hs m (fst p)" .
    ultimately show False
      using gi j(2) by simp
  qed
  have "get_scan hs key (iterator m) = get_scan hs key (buckets m ! i)"
    unfolding iterator_def by (rule get_scan_concat_nth [OF i other])
  then show ?thesis
    by (simp add: get_def gi)
qed

lemma get_resize:
  assumes "lawful hs" and "placed hs m" and "length (buckets m) = 2 ^ k" and "k \<le> 30"
    and "resize hs m n = Inr m'" and "buckets m' \<noteq> []"
  shows "get hs m' key = get hs m key"
  using assms(5)
proof (cases rule: resize_Inr_cases)
  case empty
  with assms(6) show ?thesis by simp
next
  case (pow2 k')
  define j where "j = nat (\<bar>hash hs key\<bar> mod 2 ^ k')"
  have len: "length (buckets m') = 2 ^ k'"
    by (simp add: pow2(3))
  have j: "j < 2 ^ k'"
    unfolding j_def by (rule slot_less)
  have "get hs m' key = Inr (get_scan hs key (buckets m' ! j))"
    by (simp add: get_def getBucket_pow2 [OF len pow2(1)] j_def)
  also have "buckets m' ! j = filter (\<lambda>p. nat (\<bar>hash hs (fst p)\<bar> mod 2 ^ k') = j) (iterator m)"
    using j by (simp add: pow2(3))
  also have "get_scan hs key (filter (\<lambda>p. nat (\<bar>hash hs (fst p)\<bar> mod 2 ^ k') = j) (iterator m)) =
      get_scan hs key (iterator m)"
  proof (rule get_scan_filter, intro ballI impI)
    fix p assume "equals hs key (fst p)"
    then have "hash hs key = hash hs (fst p)"
      by (rule lawful_hash [OF assms(1)])
    then show "nat (\<bar>hash hs (fst p)\<bar> mod 2 ^ k') = j"
      by (simp add: j_def)
  qed
  also have "Inr (get_scan hs key (iterator m)) = get hs m key"
    by (rule get_eq_scan [OF assms(1-4), symmetric])
  finally show ?thesis .
qed

lemma get_update_bucket:
  assumes "getBucket hs m k' = Inr i'" and "buckets m' = (buckets m)[i := b]"
  shows "get hs m' k' = Inr (get_scan hs k' (if i' = i then b else buckets m ! i'))"
proof -
  have len: "length (buckets m') = length (buckets m)"
    by (simp add: assms(2))
  have "i' < length (buckets m)"
    using assms(1) by (rule getBucket_less)
  then show ?thesis
    by (simp add: get_def getBucket_cong [OF len] assms)
qed

lemma get_overwrite:
  assumes "lawful hs" and "getBucket hs m key = Inr i"
    and "set_scan hs key value (buckets m ! i) = Some b" and "buckets m' = (buckets m)[i := b]"
    and "getBucket hs m k' = Inr i'"
  shows "get hs m' k' = (if equals hs k' key then Inr (Some value) else get hs m k')"
proof -
  have old: "get hs m k' = Inr (get_scan hs k' (buckets m ! i'))"
    by (simp add: get_def assms(5))
  show ?thesis
  proof (cases "i' = i")
    case True
    then have "get hs m' k' = Inr (get_scan hs k' b)"
      using get_update_bucket [OF assms(5,4)] by simp
    with True old show ?thesis
      by (simp add: get_scan_set_scan [OF assms(1,3)])
  next
    case False
    have "\<not> equals hs k' key"
      using getBucket_equals [OF assms(1), of k' key m] assms(2,5) False by auto
    moreover have "get hs m' k' = Inr (get_scan hs k' (buckets m ! i'))"
      using get_update_bucket [OF assms(5,4)] False by simp
    ultimately show ?thesis
      using old by simp
  qed
qed

lemma get_push:
  assumes "lawful hs" and "getBucket hs m key = Inr i"
    and "set_scan hs key value (buckets m ! i) = None"
    and "buckets m' = (buckets m)[i := buckets m ! i @ [(key, value)]]"
    and "getBucket hs m k' = Inr i'"
  shows "get hs m' k' = (if equals hs k' key then Inr (Some value) else get hs m k')"
proof -
  have old: "get hs m k' = Inr (get_scan hs k' (buckets m ! i'))"
    by (simp add: get_def assms(5))
  show ?thesis
  proof (cases "i' = i")
    case True
    have none: "get_scan hs key (buckets m ! i) = None"
      using assms(3) by (simp add: set_scan_None_iff)
    have "get hs m' k' = Inr (get_scan hs k' (buckets m ! i @ [(key, value)]))"
      using get_update_bucket [OF assms(5,4)] True by simp
    with True old show ?thesis
      by (simp add: get_scan_push [OF assms(1) none])
  next
    case False
    have "\<not> equals hs k' key"
      using getBucket_equals [OF assms(1), of k' key m] assms(2,5) False by auto
    moreover have "get hs m' k' = Inr (get_scan hs k' (buckets m ! i'))"
      using get_update_bucket [OF assms(5,4)] False by simp
    ultimately show ?thesis
      using old by simp
  qed
qed

text \<open>Reading any key after a \<open>set\<close> that returned.\<close>

lemma get_set:
  assumes "lawful hs" and "invar hs m" and "length (buckets m) = 2 ^ k" and "k \<le> 30"
    and "set_hm hs m key value = Inr m'"
  shows "get hs m' k' = (if equals hs k' key then Inr (Some value) else get hs m k')"
proof -
  have gk: "getBucket hs m k' = Inr (nat (\<bar>hash hs k'\<bar> mod 2 ^ k))"
    by (rule getBucket_pow2 [OF assms(3,4)])
  from assms(5) show ?thesis
  proof (cases rule: set_hm_cases)
    case (overwrite i b)
    show ?thesis
      by (rule get_overwrite [OF assms(1) overwrite(1,2) _ gk]) (simp add: overwrite(3))
  next
    case (push i)
    show ?thesis
      by (rule get_push [OF assms(1) push(1,2) _ gk]) (simp add: push(4))
  next
    case (grow i)
    let ?m1 = "m\<lparr>buckets := (buckets m)[i := buckets m ! i @ [(key, value)]],
                  count_hm := count_hm m + 1\<rparr>"
    have i: "i < length (buckets m)"
      using grow(1) by (rule getBucket_less)
    have inv1: "invar hs ?m1"
      by (rule invar_push [OF assms(2) grow(1)])
    have len1: "length (buckets ?m1) = 2 ^ k"
      by (simp add: assms(3))
    have "(key, value) \<in> set (iterator ?m1)"
      using i by (auto simp: iterator_def set_conv_nth [of "(buckets m)[i := buckets m ! i @ [(key, value)]]"]
          intro!: exI [of _ "buckets m ! i @ [(key, value)]"] exI [of _ i])
    then have ne: "iterator ?m1 \<noteq> []"
      by auto
    have "buckets m' \<noteq> []"
      using grow(4)
    proof (cases rule: resize_Inr_cases)
      case empty
      with ne show ?thesis by simp
    next
      case (pow2 k')
      then show ?thesis by simp
    qed
    from get_resize [OF assms(1) invar_placed [OF inv1] len1 assms(4) grow(4) this]
    have "get hs m' k' = get hs ?m1 k'" .
    also have "\<dots> = (if equals hs k' key then Inr (Some value) else get hs m k')"
      by (rule get_push [OF assms(1) grow(1,2) _ gk]) simp
    finally show ?thesis .
  qed
qed

text \<open>\<open>set\<close> returns when there is room to double the bucket array.\<close>

lemma set_hm_succeeds:
  assumes "length (buckets m) = 2 ^ k" and "k \<le> 29"
  shows "\<exists>m'. set_hm hs m key value = Inr m' \<and>
     (length (buckets m') = 2 ^ k \<or>
      length (buckets m') = 2 ^ Suc k \<and> 4 * (count_hm m + 1) > 3 * 2 ^ k)"
proof -
  have k30: "k \<le> 30" using assms(2) by simp
  define i where "i = nat (\<bar>hash hs key\<bar> mod 2 ^ k)"
  have gi: "getBucket hs m key = Inr i"
    unfolding i_def by (rule getBucket_pow2 [OF assms(1) k30])
  have pos: "0 < length (buckets m)"
    by (simp add: assms(1))
  show ?thesis
  proof (cases "set_scan hs key value (buckets m ! i)")
    case (Some b)
    then show ?thesis
      by (simp add: set_hm_def gi assms(1))
  next
    case None
    let ?m1 = "m\<lparr>buckets := (buckets m)[i := buckets m ! i @ [(key, value)]],
                  count_hm := count_hm m + 1\<rparr>"
    show ?thesis
    proof (cases "4 * (count_hm m + 1) > 3 * int (length (buckets m))")
      case True
      have "int (length (buckets m)) * 2 = 2 ^ Suc k"
        by (simp add: assms(1))
      moreover have "bucketCountFinal (2 ^ Suc k) = 2 ^ Suc k"
        using assms(2) by (intro bucketCountFinal_fix) simp
      ultimately have bf: "bucketCountFinal (int (length (buckets m)) * 2) = 2 ^ Suc k"
        by (simp add: mult.commute)
      have "Suc k \<le> 30" using assms(2) by simp
      from resize_eq [OF bf this, of hs ?m1] obtain m' where
        "resize hs ?m1 (int (length (buckets m)) * 2) = Inr m'" "length (buckets m') = 2 ^ Suc k"
        by simp
      moreover from True None gi pos have "set_hm hs m key value =
          resize hs ?m1 (int (length (buckets m)) * 2)"
        by (simp add: set_hm_def Let_def over_threshold_succ)
      moreover from True have "4 * (count_hm m + 1) > 3 * 2 ^ k"
        by (simp add: assms(1))
      ultimately show ?thesis
        by auto
    next
      case False
      with None gi pos have "set_hm hs m key value = Inr ?m1"
        by (simp add: set_hm_def Let_def over_threshold_succ)
      moreover have "length (buckets ?m1) = 2 ^ k"
        by (simp add: assms(1))
      ultimately show ?thesis
        by blast
    qed
  qed
qed

lemma set_hm_count_le:
  assumes "set_hm hs m key value = Inr m'"
  shows "count_hm m' \<le> count_hm m + 1"
  using assms by (cases rule: set_hm_cases) (auto dest: resize_count)

lemma get_succeeds:
  assumes "length (buckets m) = 2 ^ k" and "k \<le> 30"
  shows "\<exists>r. get hs m key = Inr r"
  by (simp add: get_def getBucket_pow2 [OF assms])

subsection \<open>What \<open>set\<close> does to the stored pairs\<close>

lemma set_hm_present:
  assumes "get hs m key = Inr (Some v0)" and "set_hm hs m key value = Inr m'"
  shows "\<exists>i xs k ys. getBucket hs m key = Inr i \<and> buckets m ! i = xs @ (k, v0) # ys \<and>
      equals hs key k \<and> (\<forall>p \<in> set xs. \<not> equals hs key (fst p)) \<and>
      m' = m\<lparr>buckets := (buckets m)[i := xs @ (k, value) # ys]\<rparr>"
proof -
  from assms(1) obtain i where gi: "getBucket hs m key = Inr i"
    and gs: "get_scan hs key (buckets m ! i) = Some v0"
    by (auto simp: get_def split: sum.splits)
  then obtain b where b: "set_scan hs key value (buckets m ! i) = Some b"
    using set_scan_None_iff [of hs key "value" "buckets m ! i"] by (cases "set_scan hs key value (buckets m ! i)") auto
  from set_scan_Some [OF b] gs obtain xs k ys where
    "buckets m ! i = xs @ (k, v0) # ys" "b = xs @ (k, value) # ys" "equals hs key k"
    "\<forall>p \<in> set xs. \<not> equals hs key (fst p)"
    by auto
  moreover have "m' = m\<lparr>buckets := (buckets m)[i := b]\<rparr>"
    using assms(2) by (simp add: set_hm_def gi b)
  ultimately show ?thesis
    using gi by blast
qed

lemma set_hm_absent:
  assumes "get hs m key = Inr None" and "set_hm hs m key value = Inr m'"
  shows "count_hm m' = count_hm m + 1 \<and>
      mset (iterator m') = add_mset (key, value) (mset (iterator m)) \<and>
      (\<exists>i. getBucket hs m key = Inr i \<and>
        (\<not> 4 * (count_hm m + 1) > 3 * int (length (buckets m)) \<longrightarrow>
           m' = m\<lparr>buckets := (buckets m)[i := buckets m ! i @ [(key, value)]],
                   count_hm := count_hm m + 1\<rparr>) \<and>
        (4 * (count_hm m + 1) > 3 * int (length (buckets m)) \<longrightarrow>
           resize hs (m\<lparr>buckets := (buckets m)[i := buckets m ! i @ [(key, value)]],
                         count_hm := count_hm m + 1\<rparr>) (int (length (buckets m)) * 2) = Inr m'))"
proof -
  from assms(1) obtain i where gi: "getBucket hs m key = Inr i"
    and gs: "get_scan hs key (buckets m ! i) = None"
    by (auto simp: get_def split: sum.splits)
  have i: "i < length (buckets m)"
    using gi by (rule getBucket_less)
  let ?m1 = "m\<lparr>buckets := (buckets m)[i := buckets m ! i @ [(key, value)]],
                count_hm := count_hm m + 1\<rparr>"
  have "mset (concat ((buckets m)[i := buckets m ! i @ [(key, value)]])) + mset (buckets m ! i) =
      mset (concat (buckets m)) + mset (buckets m ! i @ [(key, value)])"
    by (rule mset_concat_update [OF i])
  then have ms1: "mset (iterator ?m1) = add_mset (key, value) (mset (iterator m))"
    by (simp add: iterator_def del: mset_concat)
  from assms(2) show ?thesis
  proof (cases rule: set_hm_cases)
    case (overwrite j b)
    from gs have "set_scan hs key value (buckets m ! i) = None"
      by (simp add: set_scan_None_iff)
    with overwrite gi show ?thesis
      by simp
  next
    case (push j)
    with gi ms1 show ?thesis by simp
  next
    case (grow j)
    with gi have r: "resize hs ?m1 (int (length (buckets m)) * 2) = Inr m'" by simp
    from resize_mset [OF r] resize_count [OF r] ms1 r grow(3) gi show ?thesis
      by simp
  qed
qed

subsection \<open>remove\<close>

lemma remove_absent:
  assumes "get hs m key = Inr None"
  shows "remove hs m key = Inr (None, m)"
proof -
  from assms obtain i where "getBucket hs m key = Inr i" "get_scan hs key (buckets m ! i) = None"
    by (auto simp: get_def split: sum.splits)
  then show ?thesis
    by (simp add: remove_def remove_scan_None_iff [symmetric])
qed

lemma remove_present:
  assumes "get hs m key = Inr (Some v)"
  shows "\<exists>i xs k ys. getBucket hs m key = Inr i \<and> buckets m ! i = xs @ (k, v) # ys \<and>
      equals hs key k \<and> (\<forall>p \<in> set xs. \<not> equals hs key (fst p)) \<and>
      remove hs m key =
        Inr (Some v, m\<lparr>buckets := (buckets m)[i := xs @ ys], count_hm := count_hm m - 1\<rparr>)"
proof -
  from assms obtain i where gi: "getBucket hs m key = Inr i"
    and gs: "get_scan hs key (buckets m ! i) = Some v"
    by (auto simp: get_def split: sum.splits)
  from remove_scan_get_scan [OF gs] obtain b where b: "remove_scan hs key (buckets m ! i) = Some (v, b)"
    by blast
  from remove_scan_Some [OF b] obtain xs k ys where
    "buckets m ! i = xs @ (k, v) # ys" "b = xs @ ys" "equals hs key k"
    "\<forall>p \<in> set xs. \<not> equals hs key (fst p)"
    by blast
  moreover have "remove hs m key =
      Inr (Some v, m\<lparr>buckets := (buckets m)[i := b], count_hm := count_hm m - 1\<rparr>)"
    by (simp add: remove_def gi b)
  ultimately show ?thesis
    using gi by blast
qed

lemma get_remove_other:
  assumes "lawful hs" and "remove hs m key = Inr (r, m')" and "\<not> equals hs k' key"
  shows "get hs m' k' = get hs m k'"
proof -
  from assms(2) obtain i where gi: "getBucket hs m key = Inr i"
    by (auto simp: remove_def split: sum.splits)
  then have pos: "i < length (buckets m)"
    by (rule getBucket_less)
  show ?thesis
  proof (cases "remove_scan hs key (buckets m ! i)")
    case None
    with assms(2) gi show ?thesis by (simp add: remove_def)
  next
    case (Some vb)
    obtain v b where vb: "vb = (v, b)" by (cases vb)
    with Some assms(2) gi have m': "buckets m' = (buckets m)[i := b]"
      by (auto simp: remove_def)
    have len: "length (buckets m') = length (buckets m)"
      by (simp add: m')
    show ?thesis
    proof (cases "getBucket hs m k'")
      case (Inl e)
      then show ?thesis
        by (simp add: get_def getBucket_cong [OF len])
    next
      case (Inr i')
      from Some vb have rs: "remove_scan hs key (buckets m ! i) = Some (v, b)"
        by simp
      have eq: "get_scan hs k' b = get_scan hs k' (buckets m ! i)"
        by (rule get_scan_remove_scan [OF assms(1) rs assms(3)])
      have old: "get hs m k' = Inr (get_scan hs k' (buckets m ! i'))"
        by (simp add: get_def Inr)
      show ?thesis
        using get_update_bucket [OF Inr m'] eq old by (cases "i' = i") simp_all
    qed
  qed
qed

section \<open>Claims\<close>

text \<open>
  C3: \<open>resize\<close> does not change the content of the map. For every map and every target
  bucket count up to \<open>2 ^ 30\<close>, \<open>resize\<close> returns, and a full iteration afterwards
  yields the same pairs with the same multiplicities as before (their order may differ);
  the size is unchanged.
\<close>

theorem resize_preserves_content:
  assumes "n \<le> 2 ^ 30"
  shows "\<exists>m'. resize hs m n = Inr m' \<and> mset (iterator m') = mset (iterator m) \<and>
           size_hm m' = size_hm m"
proof -
  from resize_pow2 [OF assms, of hs m] obtain m' where r: "resize hs m n = Inr m'"
    by blast
  from resize_mset [OF r] resize_count [OF r] r show ?thesis
    by (simp add: size_hm_def)
qed

theorem resize_preserves_content_witness:
  "(4 :: int) \<le> 2 ^ 30 \<and>
   (\<exists>m'. resize defaultHasher
            \<lparr>buckets = [[(KString ''a'', 1 :: nat)], [(KString ''b'', 2), (KString ''c'', 3)]],
             count_hm = 3\<rparr> 4 = Inr m' \<and>
         mset (iterator m') =
           mset (iterator \<lparr>buckets = [[(KString ''a'', 1 :: nat)], [(KString ''b'', 2), (KString ''c'', 3)]],
             count_hm = 3\<rparr>) \<and>
         size_hm m' = size_hm \<lparr>buckets = [[(KString ''a'', 1 :: nat)], [(KString ''b'', 2), (KString ''c'', 3)]],
             count_hm = 3\<rparr>)"
  using resize_preserves_content [of 4 defaultHasher
      "\<lparr>buckets = [[(KString ''a'', 1 :: nat)], [(KString ''b'', 2), (KString ''c'', 3)]], count_hm = 3\<rparr>"]
  by simp

lemma lawful_defaultHasher: "lawful defaultHasher"
  by (simp add: lawful_def defaultHasher_def Object_is_def)

lemma from_loop_last_write:
  assumes "lawful hs"
  shows "invar hs m \<Longrightarrow> length (buckets m) = 2 ^ k \<Longrightarrow> k \<le> 29 \<Longrightarrow>
    4 * (count_hm m + int (length ops)) \<le> 3 * 2 ^ 29 \<Longrightarrow>
    \<exists>m'. from_loop hs m ops = Inr m' \<and>
      (\<forall>key r. get hs m key = Inr r \<longrightarrow> get hs m' key = Inr (last_write hs key ops r))"
proof (induction ops arbitrary: m k)
  case Nil
  then show ?case by simp
next
  case (Cons op ops)
  obtain k0 v0 where op: "op = (k0, v0)" by (cases op)
  have k30: "k \<le> 30" using Cons.prems(3) by simp
  from set_hm_succeeds [OF Cons.prems(2,3), of hs k0 v0] obtain m1 where
    m1: "set_hm hs m k0 v0 = Inr m1"
    and len1: "length (buckets m1) = 2 ^ k \<or>
      length (buckets m1) = 2 ^ Suc k \<and> 4 * (count_hm m + 1) > 3 * 2 ^ k"
    by blast
  have inv1: "invar hs m1"
    by (rule invar_set [OF Cons.prems(1) m1])
  have c1: "count_hm m1 \<le> count_hm m + 1"
    by (rule set_hm_count_le [OF m1])
  have bound1: "4 * (count_hm m1 + int (length ops)) \<le> 3 * 2 ^ 29"
    using Cons.prems(4) c1 by simp
  obtain k1 where k1: "length (buckets m1) = 2 ^ k1" "k1 \<le> 29"
  proof (cases "length (buckets m1) = 2 ^ k")
    case True
    with Cons.prems(3) that show ?thesis by blast
  next
    case False
    with len1 have g: "length (buckets m1) = 2 ^ Suc k" "4 * (count_hm m + 1) > 3 * 2 ^ k"
      by simp_all
    have "4 * (count_hm m + 1) \<le> 3 * 2 ^ 29"
      using Cons.prems(4) by simp
    with g(2) have "(2::int) ^ k < 2 ^ 29"
      by linarith
    then have "k < 29"
      using power_less_imp_less_exp [of "2::int" k 29] by simp
    with g(1) that [of "Suc k"] show ?thesis by simp
  qed
  from Cons.IH [OF inv1 k1 bound1] obtain m' where
    m': "from_loop hs m1 ops = Inr m'"
    and g': "\<forall>key r. get hs m1 key = Inr r \<longrightarrow> get hs m' key = Inr (last_write hs key ops r)"
    by blast
  have "\<forall>key r. get hs m key = Inr r \<longrightarrow> get hs m' key = Inr (last_write hs key (op # ops) r)"
  proof (intro allI impI)
    fix key r assume r: "get hs m key = Inr r"
    have "get hs m1 key = Inr (if equals hs key k0 then Some v0 else r)"
      using get_set [OF assms Cons.prems(1,2) k30 m1, of key] r by simp
    with g' show "get hs m' key = Inr (last_write hs key (op # ops) r)"
      by (simp add: op)
  qed
  with m1 m' show ?case
    by (simp add: op)
qed

text \<open>
  C1: last write wins. On a reachable map with up to \<open>2 ^ 29\<close> buckets and a lawful
  hasher, a sequence of \<open>set\<close> calls that keeps the number of entries within the load of
  \<open>2 ^ 29\<close> buckets returns, and afterwards \<open>get\<close> of any key gives the value most
  recently set for it (and what it gave before when the sequence sets none). A \<open>set\<close> on
  a key that is present overwrites the value of its pair in place and leaves the size
  as it is; a \<open>set\<close> on an absent key appends a new pair to the key's bucket and
  increases the size by one, followed by a doubling when the load exceeds the threshold.
\<close>

theorem set_get_last_write_wins:
  assumes "lawful hs" and "reachable hs m" and "length (buckets m) = 2 ^ k" and "k \<le> 29"
    and "4 * (count_hm m + int (length ops)) \<le> 3 * 2 ^ 29"
  shows "(\<exists>m'. from_loop hs m ops = Inr m' \<and>
            (\<forall>key. \<exists>r. get hs m key = Inr r \<and> get hs m' key = Inr (last_write hs key ops r)))
    \<and> (\<forall>key value v0. get hs m key = Inr (Some v0) \<longrightarrow>
          (\<exists>m' i xs k0 ys. set_hm hs m key value = Inr m' \<and> size_hm m' = size_hm m \<and>
             getBucket hs m key = Inr i \<and> buckets m ! i = xs @ (k0, v0) # ys \<and>
             m' = m\<lparr>buckets := (buckets m)[i := xs @ (k0, value) # ys]\<rparr>))
    \<and> (\<forall>key value. get hs m key = Inr None \<longrightarrow>
          (\<exists>m' i. set_hm hs m key value = Inr m' \<and> size_hm m' = size_hm m + 1 \<and>
             mset (iterator m') = add_mset (key, value) (mset (iterator m)) \<and>
             getBucket hs m key = Inr i \<and>
             (\<not> 4 * (count_hm m + 1) > 3 * int (length (buckets m)) \<longrightarrow>
                m' = m\<lparr>buckets := (buckets m)[i := buckets m ! i @ [(key, value)]],
                        count_hm := count_hm m + 1\<rparr>)))"
proof (intro conjI allI impI)
  have k30: "k \<le> 30" using assms(4) by simp
  from from_loop_last_write [OF assms(1) reachable_invar [OF assms(2)] assms(3-5)]
  obtain m' where m': "from_loop hs m ops = Inr m'"
    and g: "\<forall>key r. get hs m key = Inr r \<longrightarrow> get hs m' key = Inr (last_write hs key ops r)"
    by blast
  have "\<forall>key. \<exists>r. get hs m key = Inr r \<and> get hs m' key = Inr (last_write hs key ops r)"
    using g get_succeeds [OF assms(3) k30, of hs] by blast
  with m' show "\<exists>m'. from_loop hs m ops = Inr m' \<and>
      (\<forall>key. \<exists>r. get hs m key = Inr r \<and> get hs m' key = Inr (last_write hs key ops r))"
    by blast
next
  fix key "value" v0 assume g: "get hs m key = Inr (Some v0)"
  from set_hm_succeeds [OF assms(3,4), of hs key "value"] obtain m' where
    m': "set_hm hs m key value = Inr m'" by blast
  from set_hm_present [OF g m'] obtain i xs k0 ys where
    "getBucket hs m key = Inr i" "buckets m ! i = xs @ (k0, v0) # ys"
    "m' = m\<lparr>buckets := (buckets m)[i := xs @ (k0, value) # ys]\<rparr>"
    by blast
  with m' show "\<exists>m' i xs k0 ys. set_hm hs m key value = Inr m' \<and> size_hm m' = size_hm m \<and>
             getBucket hs m key = Inr i \<and> buckets m ! i = xs @ (k0, v0) # ys \<and>
             m' = m\<lparr>buckets := (buckets m)[i := xs @ (k0, value) # ys]\<rparr>"
    by (auto simp: size_hm_def)
next
  fix key "value" assume g: "get hs m key = Inr None"
  from set_hm_succeeds [OF assms(3,4), of hs key "value"] obtain m' where
    m': "set_hm hs m key value = Inr m'" by blast
  from set_hm_absent [OF g m'] m' show "\<exists>m' i. set_hm hs m key value = Inr m' \<and>
      size_hm m' = size_hm m + 1 \<and>
      mset (iterator m') = add_mset (key, value) (mset (iterator m)) \<and>
      getBucket hs m key = Inr i \<and>
      (\<not> 4 * (count_hm m + 1) > 3 * int (length (buckets m)) \<longrightarrow>
         m' = m\<lparr>buckets := (buckets m)[i := buckets m ! i @ [(key, value)]],
                 count_hm := count_hm m + 1\<rparr>)"
    by (auto simp: size_hm_def)
qed

lemma reachable_example:
  "reachable defaultHasher
     \<lparr>buckets = [[], [], [], [], [], [], [(KString ''a'', 1 :: nat)], []], count_hm = 1\<rparr>"
proof -
  have "set_hm defaultHasher new_HashMap (KString ''a'') (1 :: nat) =
      Inr \<lparr>buckets = [[], [], [], [], [], [], [(KString ''a'', 1)], []], count_hm = 1\<rparr>"
    by code_simp
  with reach_new show ?thesis
    by (rule reach_set)
qed

theorem set_get_last_write_wins_witness:
  "(\<exists>m'. from_loop defaultHasher
             \<lparr>buckets = [[], [], [], [], [], [], [(KString ''a'', 1 :: nat)], []], count_hm = 1\<rparr>
             [(KString ''a'', 5), (KString ''b'', 2), (KString ''a'', 7)] = Inr m' \<and>
          get defaultHasher m' (KString ''a'') = Inr (Some 7) \<and>
          get defaultHasher m' (KString ''b'') = Inr (Some 2))
   \<and> (\<exists>m'. set_hm defaultHasher
             \<lparr>buckets = [[], [], [], [], [], [], [(KString ''a'', 1 :: nat)], []], count_hm = 1\<rparr>
             (KString ''a'') 9 = Inr m' \<and> size_hm m' = 1)
   \<and> (\<exists>m'. set_hm defaultHasher
             \<lparr>buckets = [[], [], [], [], [], [], [(KString ''a'', 1 :: nat)], []], count_hm = 1\<rparr>
             (KString ''b'') 2 = Inr m' \<and> size_hm m' = 2)"
proof -
  let ?m = "\<lparr>buckets = [[], [], [], [], [], [], [(KString ''a'', 1 :: nat)], []], count_hm = 1\<rparr>"
  let ?ops = "[(KString ''a'', 5 :: nat), (KString ''b'', 2), (KString ''a'', 7)]"
  have len: "length (buckets ?m) = 2 ^ 3"
    by simp
  have k: "(3 :: nat) \<le> 29"
    by simp
  have bound: "4 * (count_hm ?m + int (length ?ops)) \<le> 3 * 2 ^ 29"
    by simp
  have ga: "get defaultHasher ?m (KString ''a'') = Inr (Some 1)"
    by code_simp
  have gb: "get defaultHasher ?m (KString ''b'') = Inr None"
    by code_simp
  note t = set_get_last_write_wins [OF lawful_defaultHasher reachable_example len k bound]
  from t obtain m' where m': "from_loop defaultHasher ?m ?ops = Inr m'"
    and g: "\<forall>key. \<exists>r. get defaultHasher ?m key = Inr r \<and>
          get defaultHasher m' key = Inr (last_write defaultHasher key ?ops r)"
    by blast
  from g [rule_format, of "KString ''a''"] have a: "get defaultHasher m' (KString ''a'') = Inr (Some 7)"
    by (simp add: defaultHasher_def Object_is_def)
  from g [rule_format, of "KString ''b''"] have b: "get defaultHasher m' (KString ''b'') = Inr (Some 2)"
    by (simp add: defaultHasher_def Object_is_def)
  from t ga have "\<exists>m'. set_hm defaultHasher ?m (KString ''a'') 9 = Inr m' \<and> size_hm m' = size_hm ?m"
    by blast
  moreover from t gb have "\<exists>m'. set_hm defaultHasher ?m (KString ''b'') 2 = Inr m' \<and>
      size_hm m' = size_hm ?m + 1"
    by blast
  ultimately show ?thesis
    using m' a b by (simp add: size_hm_def)
qed

text \<open>
  C7: \<open>remove\<close>. On a map with \<open>2 ^ k\<close> buckets (\<open>k \<le> 30\<close>) the lookup of the key
  returns. When the key is absent, \<open>remove\<close> returns absent and the map is unchanged.
  When the key is present with value \<open>v\<close>, \<open>remove\<close> returns \<open>v\<close>, the size goes
  down by one, the pair is taken out of its bucket with the pairs before and after it
  kept in their order, every other bucket is untouched and the number of buckets is the
  same: no resize.
\<close>

theorem remove_absent_or_present:
  assumes "length (buckets m) = 2 ^ k" and "k \<le> 30"
  shows "(\<exists>r. get hs m key = Inr r)
    \<and> (get hs m key = Inr None \<longrightarrow> remove hs m key = Inr (None, m))
    \<and> (\<forall>v. get hs m key = Inr (Some v) \<longrightarrow>
          (\<exists>m' i xs k0 ys. remove hs m key = Inr (Some v, m') \<and>
             size_hm m' = size_hm m - 1 \<and>
             length (buckets m') = length (buckets m) \<and>
             getBucket hs m key = Inr i \<and>
             buckets m ! i = xs @ (k0, v) # ys \<and> buckets m' ! i = xs @ ys \<and>
             (\<forall>j < length (buckets m). j \<noteq> i \<longrightarrow> buckets m' ! j = buckets m ! j)))"
proof (intro conjI allI impI)
  show "\<exists>r. get hs m key = Inr r"
    by (rule get_succeeds [OF assms])
next
  assume "get hs m key = Inr None"
  then show "remove hs m key = Inr (None, m)"
    by (rule remove_absent)
next
  fix v assume "get hs m key = Inr (Some v)"
  from remove_present [OF this] obtain i xs k0 ys where r:
    "getBucket hs m key = Inr i" "buckets m ! i = xs @ (k0, v) # ys"
    "remove hs m key =
       Inr (Some v, m\<lparr>buckets := (buckets m)[i := xs @ ys], count_hm := count_hm m - 1\<rparr>)"
    by blast
  have i: "i < length (buckets m)"
    using r(1) by (rule getBucket_less)
  let ?m' = "m\<lparr>buckets := (buckets m)[i := xs @ ys], count_hm := count_hm m - 1\<rparr>"
  have "remove hs m key = Inr (Some v, ?m') \<and> size_hm ?m' = size_hm m - 1 \<and>
      length (buckets ?m') = length (buckets m) \<and> getBucket hs m key = Inr i \<and>
      buckets m ! i = xs @ (k0, v) # ys \<and> buckets ?m' ! i = xs @ ys \<and>
      (\<forall>j < length (buckets m). j \<noteq> i \<longrightarrow> buckets ?m' ! j = buckets m ! j)"
    using r i by (simp add: size_hm_def)
  then show "\<exists>m' i xs k0 ys. remove hs m key = Inr (Some v, m') \<and>
             size_hm m' = size_hm m - 1 \<and>
             length (buckets m') = length (buckets m) \<and>
             getBucket hs m key = Inr i \<and>
             buckets m ! i = xs @ (k0, v) # ys \<and> buckets m' ! i = xs @ ys \<and>
             (\<forall>j < length (buckets m). j \<noteq> i \<longrightarrow> buckets m' ! j = buckets m ! j)"
    by blast
qed

text \<open>
  The scenario of the specification: with \<open>"a"\<close> set to 1, removing \<open>"b"\<close> returns
  absent and leaves the map as it is; removing \<open>"a"\<close> returns 1 and leaves size 0.
\<close>

theorem remove_absent_or_present_witness:
  "remove defaultHasher
      \<lparr>buckets = [[], [], [], [], [], [], [(KString ''a'', 1 :: nat)], []], count_hm = 1\<rparr>
      (KString ''b'') =
    Inr (None, \<lparr>buckets = [[], [], [], [], [], [], [(KString ''a'', 1)], []], count_hm = 1\<rparr>)
   \<and> get defaultHasher
      \<lparr>buckets = [[], [], [], [], [], [], [(KString ''a'', 1 :: nat)], []], count_hm = 1\<rparr>
      (KString ''a'') = Inr (Some 1)
   \<and> (\<exists>m'. remove defaultHasher
      \<lparr>buckets = [[], [], [], [], [], [], [(KString ''a'', 1 :: nat)], []], count_hm = 1\<rparr>
      (KString ''a'') = Inr (Some 1, m') \<and> size_hm m' = 0 \<and> length (buckets m') = 8)"
proof -
  let ?m = "\<lparr>buckets = [[], [], [], [], [], [], [(KString ''a'', 1 :: nat)], []], count_hm = 1\<rparr>"
  have len: "length (buckets ?m) = 2 ^ 3"
    by simp
  have k: "(3 :: nat) \<le> 30"
    by simp
  have ga: "get defaultHasher ?m (KString ''a'') = Inr (Some 1)"
    by code_simp
  have gb: "get defaultHasher ?m (KString ''b'') = Inr None"
    by code_simp
  from remove_absent_or_present [OF len k, of defaultHasher "KString ''b''"] gb
  have b: "remove defaultHasher ?m (KString ''b'') = Inr (None, ?m)"
    by blast
  from remove_absent_or_present [OF len k, of defaultHasher "KString ''a''"] ga
  have "\<exists>m'. remove defaultHasher ?m (KString ''a'') = Inr (Some 1, m') \<and>
      size_hm m' = size_hm ?m - 1 \<and> length (buckets m') = length (buckets ?m)"
    by blast
  then have "\<exists>m'. remove defaultHasher ?m (KString ''a'') = Inr (Some 1, m') \<and>
      size_hm m' = 0 \<and> length (buckets m') = 8"
    by (auto simp: size_hm_def)
  with b ga show ?thesis
    by blast
qed

text \<open>
  C9: \<open>entry(key).orInsertWith(fn)\<close>, on a reachable map with up to \<open>2 ^ 29\<close> buckets
  and a lawful hasher. When the key is absent, \<open>fn\<close> is called exactly once, with the
  key, and afterwards the map holds \<open>fn\<close>'s result at the key; no other map of the store
  changes. When the key is present, \<open>fn\<close> is not called and the store is unchanged. In
  both cases the handle itself is returned. The lookup that decides between the two
  always returns.
\<close>

theorem orInsertWith_absent_or_present:
  assumes "lawful hs" and "reachable hs (\<sigma> this)"
    and "length (buckets (\<sigma> this)) = 2 ^ k" and "k \<le> 29"
  shows "(\<exists>r. get hs (\<sigma> this) key = Inr r)
    \<and> (get hs (\<sigma> this) key = Inr None \<longrightarrow>
          (\<exists>\<sigma>'. orInsertWith hs (entry this key) fn \<sigma> = Inr (entry this key, \<sigma>', [key]) \<and>
             get hs (\<sigma>' this) key = Inr (Some (fn key)) \<and>
             (\<forall>other. other \<noteq> this \<longrightarrow> \<sigma>' other = \<sigma> other)))
    \<and> (\<forall>v. get hs (\<sigma> this) key = Inr (Some v) \<longrightarrow>
          orInsertWith hs (entry this key) fn \<sigma> = Inr (entry this key, \<sigma>, []))"
proof (intro conjI allI impI)
  have k30: "k \<le> 30" using assms(4) by simp
  show "\<exists>r. get hs (\<sigma> this) key = Inr r"
    by (rule get_succeeds [OF assms(3) k30])
next
  assume g: "get hs (\<sigma> this) key = Inr None"
  have k30: "k \<le> 30" using assms(4) by simp
  from set_hm_succeeds [OF assms(3,4), of hs key "fn key"] obtain m' where
    m': "set_hm hs (\<sigma> this) key (fn key) = Inr m'"
    by blast
  have "get hs m' key = Inr (Some (fn key))"
    using get_set [OF assms(1) reachable_invar [OF assms(2)] assms(3) k30 m', of key]
    by (simp add: lawful_refl [OF assms(1)])
  moreover have "orInsertWith hs (entry this key) fn \<sigma> =
      Inr (entry this key, \<sigma>(this := m'), [key])"
    using g m' by (simp add: orInsertWith_def entry_get_def entry_set_def entry_def)
  ultimately show "\<exists>\<sigma>'. orInsertWith hs (entry this key) fn \<sigma> = Inr (entry this key, \<sigma>', [key]) \<and>
      get hs (\<sigma>' this) key = Inr (Some (fn key)) \<and>
      (\<forall>other. other \<noteq> this \<longrightarrow> \<sigma>' other = \<sigma> other)"
    by (intro exI [of _ "\<sigma>(this := m')"]) simp
next
  fix v assume "get hs (\<sigma> this) key = Inr (Some v)"
  then show "orInsertWith hs (entry this key) fn \<sigma> = Inr (entry this key, \<sigma>, [])"
    by (simp add: orInsertWith_def entry_get_def entry_def)
qed

text \<open>
  The scenario of the specification: on an empty map \<open>orInsertWith\<close> at \<open>"x"\<close> calls
  \<open>fn\<close> once and stores its result; called again on the resulting store it does not call
  \<open>fn\<close>.
\<close>

theorem orInsertWith_absent_or_present_witness:
  "\<exists>\<sigma>'. orInsertWith defaultHasher (entry 0 (KString ''x'')) (\<lambda>_. 99 :: nat) (\<lambda>_. new_HashMap) =
           Inr (entry 0 (KString ''x''), \<sigma>', [KString ''x'']) \<and>
        get defaultHasher (\<sigma>' 0) (KString ''x'') = Inr (Some 99) \<and>
        orInsertWith defaultHasher (entry 0 (KString ''x'')) (\<lambda>_. 7) \<sigma>' =
           Inr (entry 0 (KString ''x''), \<sigma>', [])"
proof -
  let ?\<sigma> = "\<lambda>_ :: nat. new_HashMap :: (key, nat) hashmap"
  have len: "length (buckets (?\<sigma> 0)) = 2 ^ 3"
    by (simp add: new_HashMap_def)
  have k: "(3 :: nat) \<le> 29"
    by simp
  have g: "get defaultHasher (?\<sigma> 0) (KString ''x'') = Inr None"
    by code_simp
  have r: "reachable defaultHasher (?\<sigma> 0)"
    by (rule reach_new)
  from orInsertWith_absent_or_present [where \<sigma> = ?\<sigma> and this = 0 and key = "KString ''x''"
      and fn = "\<lambda>_. 99", OF lawful_defaultHasher r len k] g
  obtain \<sigma>' where s: "orInsertWith defaultHasher (entry 0 (KString ''x'')) (\<lambda>_. 99) ?\<sigma> =
      Inr (entry 0 (KString ''x''), \<sigma>', [KString ''x''])"
    and g': "get defaultHasher (\<sigma>' 0) (KString ''x'') = Inr (Some 99)"
    by blast
  have m': "set_hm defaultHasher (?\<sigma> 0) (KString ''x'') 99 = Inr (\<sigma>' 0)"
    using s g by (auto simp: orInsertWith_def entry_get_def entry_set_def entry_def split: sum.splits)
  have r': "reachable defaultHasher (\<sigma>' 0)"
    by (rule reach_set [OF reach_new m'])
  from set_hm_succeeds [OF len k, of defaultHasher "KString ''x''" 99] m'
  have "length (buckets (\<sigma>' 0)) = 2 ^ 3 \<or> length (buckets (\<sigma>' 0)) = 2 ^ Suc 3"
    by auto
  then obtain k' where k': "length (buckets (\<sigma>' 0)) = 2 ^ k'" "k' \<le> 29"
  proof
    assume "length (buckets (\<sigma>' 0)) = 2 ^ 3"
    then show ?thesis by (rule that) simp
  next
    assume "length (buckets (\<sigma>' 0)) = 2 ^ Suc 3"
    then show ?thesis by (rule that) simp
  qed
  from orInsertWith_absent_or_present [where \<sigma> = \<sigma>' and this = 0 and key = "KString ''x''"
      and fn = "\<lambda>_. 7", OF lawful_defaultHasher r' k'] g'
  have "orInsertWith defaultHasher (entry 0 (KString ''x'')) (\<lambda>_. 7) \<sigma>' =
      Inr (entry 0 (KString ''x''), \<sigma>', [])"
    by blast
  with s g' show ?thesis
    by blast
qed

lemma defaultHasher_zero_hash:
  "hash defaultHasher (KNumber (Whole 0)) = hash defaultHasher (KNumber NegZero)"
proof -
  have "digits 0 = ''0''"
    by code_simp
  then show ?thesis
    by (simp add: defaultHasher_def)
qed

text \<open>
  C10: under the default hasher keys are compared with \<open>Object.is\<close>. The keys \<open>0\<close>
  and \<open>-0\<close> have the same hash string \<open>number: 0\<close> and the same hash, yet they are
  different keys: on a reachable map with up to \<open>2 ^ 29\<close> buckets, \<open>set\<close> of either
  returns and leaves what \<open>get\<close> finds for the other as it was. \<open>NaN\<close> equals itself:
  after \<open>set(NaN, v)\<close>, \<open>get(NaN)\<close> is \<open>v\<close>.
\<close>

theorem defaultHasher_zeros_and_NaN:
  assumes "reachable defaultHasher m" and "length (buckets m) = 2 ^ k" and "k \<le> 29"
  shows "typeof (KNumber (Whole 0)) @ '': '' @ toString (KNumber (Whole 0)) = ''number: 0''
    \<and> typeof (KNumber NegZero) @ '': '' @ toString (KNumber NegZero) = ''number: 0''
    \<and> hash defaultHasher (KNumber (Whole 0)) = hash defaultHasher (KNumber NegZero)
    \<and> \<not> equals defaultHasher (KNumber (Whole 0)) (KNumber NegZero)
    \<and> \<not> equals defaultHasher (KNumber NegZero) (KNumber (Whole 0))
    \<and> (\<exists>m'. set_hm defaultHasher m (KNumber (Whole 0)) v = Inr m' \<and>
           get defaultHasher m' (KNumber (Whole 0)) = Inr (Some v) \<and>
           get defaultHasher m' (KNumber NegZero) = get defaultHasher m (KNumber NegZero))
    \<and> (\<exists>m'. set_hm defaultHasher m (KNumber NegZero) v = Inr m' \<and>
           get defaultHasher m' (KNumber NegZero) = Inr (Some v) \<and>
           get defaultHasher m' (KNumber (Whole 0)) = get defaultHasher m (KNumber (Whole 0)))
    \<and> equals defaultHasher (KNumber NaN) (KNumber NaN)
    \<and> (\<exists>m'. set_hm defaultHasher m (KNumber NaN) v = Inr m' \<and>
           get defaultHasher m' (KNumber NaN) = Inr (Some v))"
proof -
  have k30: "k \<le> 30" using assms(3) by simp
  note inv = reachable_invar [OF assms(1)]
  have d0: "digits 0 = ''0''"
    by code_simp
  have eq: "\<And>a b. equals defaultHasher a b = (a = b)"
    by (simp add: defaultHasher_def Object_is_def)
  have after: "\<exists>m'. set_hm defaultHasher m key v = Inr m' \<and>
      get defaultHasher m' key = Inr (Some v) \<and>
      (\<forall>k'. k' \<noteq> key \<longrightarrow> get defaultHasher m' k' = get defaultHasher m k')" for key
  proof -
    from set_hm_succeeds [OF assms(2,3), of defaultHasher key v] obtain m' where
      m': "set_hm defaultHasher m key v = Inr m'"
      by blast
    from get_set [OF lawful_defaultHasher inv assms(2) k30 m'] m' show ?thesis
      by (auto simp: eq)
  qed
  have s1: "typeof (KNumber (Whole 0)) @ '': '' @ toString (KNumber (Whole 0)) = ''number: 0''"
    by (simp add: d0)
  have s2: "typeof (KNumber NegZero) @ '': '' @ toString (KNumber NegZero) = ''number: 0''"
    by simp
  have z: "\<exists>m'. set_hm defaultHasher m (KNumber (Whole 0)) v = Inr m' \<and>
           get defaultHasher m' (KNumber (Whole 0)) = Inr (Some v) \<and>
           get defaultHasher m' (KNumber NegZero) = get defaultHasher m (KNumber NegZero)"
    using after [of "KNumber (Whole 0)"] by auto
  have nz: "\<exists>m'. set_hm defaultHasher m (KNumber NegZero) v = Inr m' \<and>
           get defaultHasher m' (KNumber NegZero) = Inr (Some v) \<and>
           get defaultHasher m' (KNumber (Whole 0)) = get defaultHasher m (KNumber (Whole 0))"
    using after [of "KNumber NegZero"] by auto
  have nan: "\<exists>m'. set_hm defaultHasher m (KNumber NaN) v = Inr m' \<and>
           get defaultHasher m' (KNumber NaN) = Inr (Some v)"
    using after [of "KNumber NaN"] by auto
  from s1 s2 defaultHasher_zero_hash z nz nan show ?thesis
    by (simp add: eq)
qed

text \<open>
  On a new map: \<open>-0\<close> set to 1, then \<open>0\<close> set to 2 and \<open>NaN\<close> set to 3 give a map
  of size 3 in which the three keys have their own values; both zeros are in bucket 1.
\<close>

theorem defaultHasher_zeros_and_NaN_witness:
  "set_hm defaultHasher new_HashMap (KNumber NegZero) (1 :: nat) =
     Inr \<lparr>buckets = [[], [(KNumber NegZero, 1)], [], [], [], [], [], []], count_hm = 1\<rparr>
   \<and> (\<exists>m'. set_hm defaultHasher
          \<lparr>buckets = [[], [(KNumber NegZero, 1 :: nat)], [], [], [], [], [], []], count_hm = 1\<rparr>
          (KNumber (Whole 0)) 2 = Inr m' \<and>
        get defaultHasher m' (KNumber (Whole 0)) = Inr (Some 2) \<and>
        get defaultHasher m' (KNumber NegZero) = Inr (Some 1))
   \<and> (\<exists>m'. set_hm defaultHasher
          \<lparr>buckets = [[], [(KNumber NegZero, 1 :: nat)], [], [], [], [], [], []], count_hm = 1\<rparr>
          (KNumber NaN) 3 = Inr m' \<and>
        get defaultHasher m' (KNumber NaN) = Inr (Some 3))"
proof -
  let ?m = "\<lparr>buckets = [[], [(KNumber NegZero, 1 :: nat)], [], [], [], [], [], []], count_hm = 1\<rparr>"
  have s: "set_hm defaultHasher new_HashMap (KNumber NegZero) (1 :: nat) = Inr ?m"
    by code_simp
  have r: "reachable defaultHasher ?m"
    by (rule reach_set [OF reach_new s])
  have len: "length (buckets ?m) = 2 ^ 3"
    by simp
  have k: "(3 :: nat) \<le> 29"
    by simp
  have g: "get defaultHasher ?m (KNumber NegZero) = Inr (Some 1)"
    by code_simp
  from defaultHasher_zeros_and_NaN [OF r len k, of 2] g
  have "\<exists>m'. set_hm defaultHasher ?m (KNumber (Whole 0)) 2 = Inr m' \<and>
        get defaultHasher m' (KNumber (Whole 0)) = Inr (Some 2) \<and>
        get defaultHasher m' (KNumber NegZero) = Inr (Some 1)"
    by simp
  moreover from defaultHasher_zeros_and_NaN [OF r len k, of 3]
  have "\<exists>m'. set_hm defaultHasher ?m (KNumber NaN) 3 = Inr m' \<and>
        get defaultHasher m' (KNumber NaN) = Inr (Some 3)"
    by simp
  ultimately show ?thesis
    using s by blast
qed

lemma get_scan_Some_mem:
  "get_scan hs key b = Some v \<Longrightarrow> \<exists>k0. (k0, v) \<in> set b \<and> equals hs key k0"
  by (induction b) (auto split: if_splits)

lemma reachable_buckets:
  assumes "reachable hs m" and "0 < length (buckets m)"
  obtains k where "k \<le> 30" and "length (buckets m) = 2 ^ k"
  using reachable_invar [OF assms(1)] assms(2) unfolding invar_def by auto

text \<open>
  C8, as stated, fails: the bucket of a key is not the one at \<open>hash(key) mod length\<close>.
  Under the default hasher the key \<open>"a"\<close> has the negative hash \<open>-189319094\<close>; in a
  new map of 8 buckets \<open>set\<close> puts it into bucket 6, where \<open>getBucket\<close> looks for it,
  while the hash modulo 8 is 2.
\<close>

theorem bucket_is_not_hash_mod_counterexample:
  "set_hm defaultHasher new_HashMap (KString ''a'') (1 :: nat) =
     Inr \<lparr>buckets = [[], [], [], [], [], [], [(KString ''a'', 1)], []], count_hm = 1\<rparr>
   \<and> getBucket defaultHasher
       \<lparr>buckets = [[], [], [], [], [], [], [(KString ''a'', 1 :: nat)], []], count_hm = 1\<rparr>
       (KString ''a'') = Inr 6
   \<and> hash defaultHasher (KString ''a'') = - 189319094
   \<and> spec_bucket_index (hash defaultHasher (KString ''a'')) 8 = 2"
  by code_simp

text \<open>
  C8, amended: the bucket is determined by the absolute value of the hash. In every
  reachable state, with a lawful hasher, every stored pair lies in the bucket with index
  \<open>\<bar>hash(key)\<bar> mod length\<close>, which is where \<open>getBucket\<close> looks for its key, and no
  other bucket holds a pair with an equal key. \<open>get\<close> and \<open>getKeyValue\<close> scan exactly
  the bucket \<open>getBucket\<close> finds, \<open>remove\<close> changes no other bucket, after a \<open>set\<close>
  the value is in the bucket that \<open>getBucket\<close> finds for the key in the new state, and
  after a \<open>resize\<close> every pair is again in the bucket of its key.
\<close>

theorem bucket_is_abs_hash_mod:
  assumes "lawful hs" and "reachable hs m"
  shows "(\<forall>i < length (buckets m). \<forall>p \<in> set (buckets m ! i).
            int i = \<bar>hash hs (fst p)\<bar> mod int (length (buckets m)) \<and>
            getBucket hs m (fst p) = Inr i \<and>
            (\<forall>j < length (buckets m). \<forall>q \<in> set (buckets m ! j).
               equals hs (fst p) (fst q) \<longrightarrow> j = i))
    \<and> (0 < length (buckets m) \<longrightarrow>
          (\<forall>key. getBucket hs m key = Inr (nat (\<bar>hash hs key\<bar> mod int (length (buckets m))))))
    \<and> (\<forall>key i. getBucket hs m key = Inr i \<longrightarrow>
          get hs m key = Inr (get_scan hs key (buckets m ! i)) \<and>
          getKeyValue hs m key = Inr (getKeyValue_scan hs key (buckets m ! i)) \<and>
          (\<forall>r m'. remove hs m key = Inr (r, m') \<longrightarrow>
             (\<forall>j < length (buckets m). j \<noteq> i \<longrightarrow> buckets m' ! j = buckets m ! j)) \<and>
          (\<forall>value m'. set_hm hs m key value = Inr m' \<longrightarrow>
             (\<exists>i' k0. getBucket hs m' key = Inr i' \<and> equals hs key k0 \<and>
                (k0, value) \<in> set (buckets m' ! i'))))
    \<and> (\<forall>n m'. resize hs m n = Inr m' \<longrightarrow>
          (\<forall>j < length (buckets m'). \<forall>q \<in> set (buckets m' ! j). getBucket hs m' (fst q) = Inr j))"
proof (intro conjI allI impI ballI)
  fix i p assume i: "i < length (buckets m)" and p: "p \<in> set (buckets m ! i)"
  note pl = invar_placed [OF reachable_invar [OF assms(2)]]
  from i obtain k where k: "k \<le> 30" "length (buckets m) = 2 ^ k"
    using reachable_buckets [OF assms(2)] by (metis gr_implies_not0 neq0_conv)
  show gb: "getBucket hs m (fst p) = Inr i"
    by (rule placed_nth [OF pl i p])
  then have "i = nat (\<bar>hash hs (fst p)\<bar> mod 2 ^ k)"
    by (simp add: getBucket_pow2 [OF k(2,1)])
  then show "int i = \<bar>hash hs (fst p)\<bar> mod int (length (buckets m))"
    by (simp add: k(2))
  fix j q assume j: "j < length (buckets m)" and q: "q \<in> set (buckets m ! j)"
    and e: "equals hs (fst p) (fst q)"
  have "getBucket hs m (fst q) = Inr j"
    by (rule placed_nth [OF pl j q])
  with gb getBucket_equals [OF assms(1) e, of m] show "j = i"
    by simp
next
  fix key assume "0 < length (buckets m)"
  then obtain k where k: "k \<le> 30" "length (buckets m) = 2 ^ k"
    using reachable_buckets [OF assms(2)] by blast
  show "getBucket hs m key = Inr (nat (\<bar>hash hs key\<bar> mod int (length (buckets m))))"
    by (simp add: getBucket_pow2 [OF k(2,1)] k(2))
next
  fix key i assume "getBucket hs m key = Inr i"
  then show "get hs m key = Inr (get_scan hs key (buckets m ! i))"
    and "getKeyValue hs m key = Inr (getKeyValue_scan hs key (buckets m ! i))"
    by (simp_all add: get_def getKeyValue_def)
next
  fix key i r m' j
  assume g: "getBucket hs m key = Inr i" and r: "remove hs m key = Inr (r, m')"
    and j: "j < length (buckets m)" "j \<noteq> i"
  then show "buckets m' ! j = buckets m ! j"
    by (auto simp: remove_def split: option.splits)
next
  fix key i "value" m'
  assume g: "getBucket hs m key = Inr i" and s: "set_hm hs m key value = Inr m'"
  from g have "0 < length (buckets m)"
    using getBucket_less by fastforce
  then obtain k where k: "k \<le> 30" "length (buckets m) = 2 ^ k"
    using reachable_buckets [OF assms(2)] by blast
  have "get hs m' key = Inr (Some value)"
    using get_set [OF assms(1) reachable_invar [OF assms(2)] k(2,1) s, of key]
    by (simp add: lawful_refl [OF assms(1)])
  then obtain i' where i': "getBucket hs m' key = Inr i'"
    and "get_scan hs key (buckets m' ! i') = Some value"
    by (auto simp: get_def split: sum.splits)
  with get_scan_Some_mem [of hs key "buckets m' ! i'" "value"]
  show "\<exists>i' k0. getBucket hs m' key = Inr i' \<and> equals hs key k0 \<and>
      (k0, value) \<in> set (buckets m' ! i')"
    by blast
next
  fix n m' j q
  assume "resize hs m n = Inr m'" and "j < length (buckets m')" and "q \<in> set (buckets m' ! j)"
  then show "getBucket hs m' (fst q) = Inr j"
    using placed_resize placed_nth by blast
qed

theorem bucket_is_abs_hash_mod_witness:
  "int 6 = \<bar>hash defaultHasher (KString ''a'')\<bar> mod
       int (length (buckets
         \<lparr>buckets = [[], [], [], [], [], [], [(KString ''a'', 1 :: nat)], []], count_hm = 1\<rparr>))
   \<and> getBucket defaultHasher
       \<lparr>buckets = [[], [], [], [], [], [], [(KString ''a'', 1 :: nat)], []], count_hm = 1\<rparr>
       (KString ''a'') = Inr 6
   \<and> get defaultHasher
       \<lparr>buckets = [[], [], [], [], [], [], [(KString ''a'', 1 :: nat)], []], count_hm = 1\<rparr>
       (KString ''a'') = Inr (get_scan defaultHasher (KString ''a'') [(KString ''a'', 1)])"
proof -
  let ?m = "\<lparr>buckets = [[], [], [], [], [], [], [(KString ''a'', 1 :: nat)], []], count_hm = 1\<rparr>"
  note t = bucket_is_abs_hash_mod [OF lawful_defaultHasher reachable_example]
  have i: "6 < length (buckets ?m)"
    by simp
  have p: "(KString ''a'', 1) \<in> set (buckets ?m ! 6)"
    by simp
  from t i p have a: "int 6 = \<bar>hash defaultHasher (fst (KString ''a'', 1 :: nat))\<bar> mod int (length (buckets ?m))"
    and b: "getBucket defaultHasher ?m (fst (KString ''a'', 1 :: nat)) = Inr 6"
    by blast+
  from t b have "get defaultHasher ?m (KString ''a'') =
      Inr (get_scan defaultHasher (KString ''a'') (buckets ?m ! 6))"
    by auto
  with a b show ?thesis
    by simp
qed

section \<open>drain\<close>

lemma drain_walk_None: "drain_walk bs = None \<Longrightarrow> concat bs = []"
  by (induction bs rule: drain_walk.induct) auto

lemma drain_walk_Some: "drain_walk bs = Some (p, rest) \<Longrightarrow> concat bs = p # concat rest"
  by (induction bs rule: drain_walk.induct) auto

lemma drain_all_yield: "drain_all (Suspended_Yield bs) m = (concat bs, m)"
proof (induction "length (concat bs)" arbitrary: bs rule: less_induct)
  case less
  show ?case
  proof (cases "drain_walk bs")
    case None
    then show ?thesis
      by (subst drain_all.simps) (simp add: drain_walk_None)
  next
    case (Some pr)
    obtain p rest where pr: "pr = (p, rest)" by (cases pr)
    from Some pr have c: "concat bs = p # concat rest"
      by (simp add: drain_walk_Some)
    then have "length (concat rest) < length (concat bs)"
      by simp
    then have "drain_all (Suspended_Yield rest) m = (concat rest, m)"
      by (rule less)
    with Some pr c show ?thesis
      by (subst drain_all.simps) simp
  qed
qed

lemma drain_all_start: "drain_all Suspended_Start m = (iterator m, clear m)"
proof (cases "drain_walk (buckets m)")
  case None
  then show ?thesis
    by (subst drain_all.simps) (simp add: drain_walk_None iterator_def)
next
  case (Some pr)
  obtain p rest where pr: "pr = (p, rest)" by (cases pr)
  from Some pr have "concat (buckets m) = p # concat rest"
    by (simp add: drain_walk_Some)
  with Some pr show ?thesis
    by (subst drain_all.simps) (simp add: drain_all_yield iterator_def)
qed

text \<open>
  C5, as stated, fails: calling \<open>drain()\<close> does not clear the map. The call only makes
  the generator; the map with \<open>"a"\<close> set to 1 still has size 1 and its pair after it.
\<close>

theorem drain_call_does_not_clear_counterexample:
  "snd (drain \<lparr>buckets = [[], [], [], [], [], [], [(KString ''a'', 1 :: nat)], []], count_hm = 1\<rparr>) =
     \<lparr>buckets = [[], [], [], [], [], [], [(KString ''a'', 1)], []], count_hm = 1\<rparr>
   \<and> size_hm (snd (drain
       \<lparr>buckets = [[], [], [], [], [], [], [(KString ''a'', 1 :: nat)], []], count_hm = 1\<rparr>)) = 1
   \<and> iterator (snd (drain
       \<lparr>buckets = [[], [], [], [], [], [], [(KString ''a'', 1 :: nat)], []], count_hm = 1\<rparr>)) =
     [(KString ''a'', 1)]"
  by (simp add: drain_def size_hm_def iterator_def)

text \<open>
  C5, amended: the map is cleared when the sequence is first advanced, not when
  \<open>drain()\<close> is called. For a reachable map: the call returns a generator that has not
  started and leaves the map as it is; the first \<open>next()\<close> clears the map; and running
  the generator to its end, with no other operation on the map in between, yields the
  pairs that were stored, each once, in iteration order: exactly \<open>size()\<close> of them.
  The map is then the cleared one, of size 0 and with the same number of buckets.
\<close>

theorem drain_yields_all_and_clears:
  assumes "reachable hs m"
  shows "drain m = (Suspended_Start, m)
    \<and> snd (snd (drain_next Suspended_Start m)) = clear m
    \<and> drain_all (fst (drain m)) (snd (drain m)) = (iterator m, clear m)
    \<and> int (length (iterator m)) = size_hm m
    \<and> size_hm (clear m) = 0
    \<and> iterator (clear m) = []
    \<and> length (buckets (clear m)) = length (buckets m)"
proof -
  have "snd (snd (drain_next Suspended_Start m)) = clear m"
    by (simp add: Let_def split: option.splits)
  moreover have "int (length (iterator m)) = size_hm m"
    using reachable_invar [OF assms] by (simp add: invar_def size_hm_def)
  moreover have "iterator (clear m) = []"
    by (simp add: clear_def iterator_def)
  ultimately show ?thesis
    by (simp add: drain_def drain_all_start size_hm_def clear_def)
qed

theorem drain_yields_all_and_clears_witness:
  "drain_all (fst (drain \<lparr>buckets = [[], [], [], [], [], [], [(KString ''a'', 1 :: nat)], []], count_hm = 1\<rparr>))
      (snd (drain \<lparr>buckets = [[], [], [], [], [], [], [(KString ''a'', 1 :: nat)], []], count_hm = 1\<rparr>)) =
     ([(KString ''a'', 1)], \<lparr>buckets = [[], [], [], [], [], [], [], []], count_hm = 0\<rparr>)
   \<and> int (length [(KString ''a'', 1 :: nat)]) =
       size_hm \<lparr>buckets = [[], [], [], [], [], [], [(KString ''a'', 1 :: nat)], []], count_hm = 1\<rparr>"
proof -
  let ?m = "\<lparr>buckets = [[], [], [], [], [], [], [(KString ''a'', 1 :: nat)], []], count_hm = 1\<rparr>"
  from drain_yields_all_and_clears [OF reachable_example]
  have "drain_all (fst (drain ?m)) (snd (drain ?m)) = (iterator ?m, clear ?m)"
    and "int (length (iterator ?m)) = size_hm ?m"
    by blast+
  then show ?thesis
    by (simp add: iterator_def clear_def)
qed

section \<open>Shrinking\<close>

lemma min_buckets_hold: "4 * c \<le> 3 * \<lceil>of_int c / loadThreshold\<rceil>"
  unfolding ceiling_over_threshold by presburger

lemma resize_shrink:
  assumes "length (buckets m) = 2 ^ k" and "k \<le> 30" and "n < int (length (buckets m))"
  shows "\<exists>m' j. resize hs m n = Inr m' \<and> length (buckets m') = 2 ^ j \<and> j \<le> k \<and>
      n \<le> 2 ^ j \<and> (0 < j \<longrightarrow> 2 ^ (j - 1) < n) \<and>
      mset (iterator m') = mset (iterator m) \<and> count_hm m' = count_hm m"
proof -
  have "(2::int) ^ k \<le> 2 ^ 30"
    by (rule power_increasing) (use assms(2) in simp_all)
  with assms(1,3) have n: "n \<le> 2 ^ 30" "n < 2 ^ k"
    by simp_all
  from resize_result [OF n(1), of hs m] obtain j m' where r:
    "j \<le> 30" "n \<le> 2 ^ j" "0 < j \<longrightarrow> 2 ^ (j - 1) < n" "resize hs m n = Inr m'"
    "length (buckets m') = 2 ^ j" "count_hm m' = count_hm m"
    "mset (iterator m') = mset (iterator m)"
    by metis
  have "j \<le> k"
  proof (cases "0 < j")
    case True
    with r(3) n(2) have "(2::int) ^ (j - 1) < 2 ^ k"
      by linarith
    then have "j - 1 < k"
      by simp
    then show ?thesis by simp
  next
    case False
    then show ?thesis by simp
  qed
  with r show ?thesis
    by blast
qed

text \<open>
  C6, as stated, fails: \<open>shrinkTo\<close> does not fall back to \<open>shrinkToFit\<close> in every case
  where it does not shrink to the target. On a new map of 8 buckets \<open>shrinkTo(100)\<close>
  has the target 134, which is not below 8, and leaves the 8 buckets, while
  \<open>shrinkToFit\<close> shrinks the map to one bucket.
\<close>

theorem shrinkTo_without_fallback_counterexample:
  "\<lceil>of_int 100 / loadThreshold\<rceil> = 134
   \<and> shrinkTo defaultHasher (new_HashMap :: (key, nat) hashmap) 100 =
       Inr \<lparr>buckets = [[], [], [], [], [], [], [], []], count_hm = 0\<rparr>
   \<and> shrinkToFit defaultHasher (new_HashMap :: (key, nat) hashmap) =
       Inr \<lparr>buckets = [[]], count_hm = 0\<rparr>"
  by code_simp

text \<open>
  C6, amended: \<open>shrinkTo(capacity)\<close> computes the target
  \<open>ceil(capacity / loadThreshold)\<close> and the minimum \<open>ceil(count / loadThreshold)\<close>.
  When the target is at least the minimum and below the bucket count it resizes to the
  target, that is, to the least power of two that is at least the target. When the target
  is below the minimum it does what \<open>shrinkToFit\<close> does. In the remaining case, a target
  that is at least the minimum and not below the bucket count, it leaves the map as it
  is. It always returns, never makes the bucket array longer, keeps the pairs and the size,
  and when it changes the map the new bucket array holds the entries within the load
  threshold.
\<close>

theorem shrinkTo_cases:
  assumes "length (buckets m) = 2 ^ k" and "k \<le> 30"
  shows "(\<lceil>of_int (count_hm m) / loadThreshold\<rceil> \<le> \<lceil>of_int cap / loadThreshold\<rceil> \<and>
          \<lceil>of_int cap / loadThreshold\<rceil> < int (length (buckets m)) \<longrightarrow>
            shrinkTo hs m cap = resize hs m \<lceil>of_int cap / loadThreshold\<rceil> \<and>
            (\<exists>m' j. shrinkTo hs m cap = Inr m' \<and> length (buckets m') = 2 ^ j \<and>
               \<lceil>of_int cap / loadThreshold\<rceil> \<le> 2 ^ j \<and>
               (0 < j \<longrightarrow> 2 ^ (j - 1) < \<lceil>of_int cap / loadThreshold\<rceil>)))
    \<and> (\<lceil>of_int cap / loadThreshold\<rceil> < \<lceil>of_int (count_hm m) / loadThreshold\<rceil> \<longrightarrow>
          shrinkTo hs m cap = shrinkToFit hs m)
    \<and> (\<lceil>of_int (count_hm m) / loadThreshold\<rceil> \<le> \<lceil>of_int cap / loadThreshold\<rceil> \<and>
          int (length (buckets m)) \<le> \<lceil>of_int cap / loadThreshold\<rceil> \<longrightarrow>
            shrinkTo hs m cap = Inr m)
    \<and> (\<exists>m'. shrinkTo hs m cap = Inr m' \<and>
          length (buckets m') \<le> length (buckets m) \<and>
          (m' = m \<or> 4 * count_hm m' \<le> 3 * int (length (buckets m'))) \<and>
          mset (iterator m') = mset (iterator m) \<and> size_hm m' = size_hm m)"
proof -
  define t where "t = \<lceil>of_int cap / loadThreshold\<rceil>"
  define mb where "mb = \<lceil>of_int (count_hm m) / loadThreshold\<rceil>"
  define len where "len = int (length (buckets m))"
  have mb: "4 * count_hm m \<le> 3 * mb"
    unfolding mb_def by (rule min_buckets_hold)
  have st: "shrinkTo hs m cap =
      (if mb \<le> t \<and> t < len then resize hs m t else if t < mb then shrinkToFit hs m else Inr m)"
    by (simp add: shrinkTo_def t_def mb_def len_def)
  have sf: "shrinkToFit hs m = (if mb < len then resize hs m mb else Inr m)"
    by (simp add: shrinkToFit_def mb_def len_def)
  have good: "\<exists>m'. resize hs m n = Inr m' \<and> length (buckets m') \<le> length (buckets m) \<and>
      (m' = m \<or> 4 * count_hm m' \<le> 3 * int (length (buckets m'))) \<and>
      mset (iterator m') = mset (iterator m) \<and> size_hm m' = size_hm m"
    if n: "n < len" "mb \<le> n" for n
  proof -
    from resize_shrink [OF assms, of n hs] n(1) obtain m' j where r:
      "resize hs m n = Inr m'" "length (buckets m') = 2 ^ j" "j \<le> k" "n \<le> 2 ^ j"
      "mset (iterator m') = mset (iterator m)" "count_hm m' = count_hm m"
      unfolding len_def by blast
    have "(2::nat) ^ j \<le> 2 ^ k"
      by (rule power_increasing) (use r(3) in simp_all)
    then have "length (buckets m') \<le> length (buckets m)"
      by (simp add: r(2) assms(1))
    moreover have "4 * count_hm m' \<le> 3 * int (length (buckets m'))"
      using mb n(2) r(4) by (simp add: r(2,6))
    ultimately show ?thesis
      using r(1,5,6) by (auto simp: size_hm_def)
  qed
  have a: "mb \<le> t \<and> t < len \<longrightarrow> shrinkTo hs m cap = resize hs m t \<and>
      (\<exists>m' j. shrinkTo hs m cap = Inr m' \<and> length (buckets m') = 2 ^ j \<and> t \<le> 2 ^ j \<and>
         (0 < j \<longrightarrow> 2 ^ (j - 1) < t))"
  proof
    assume c: "mb \<le> t \<and> t < len"
    then have "t < int (length (buckets m))"
      by (simp add: len_def)
    from resize_shrink [OF assms this, of hs] c st show "shrinkTo hs m cap = resize hs m t \<and>
      (\<exists>m' j. shrinkTo hs m cap = Inr m' \<and> length (buckets m') = 2 ^ j \<and> t \<le> 2 ^ j \<and>
         (0 < j \<longrightarrow> 2 ^ (j - 1) < t))"
      by auto
  qed
  have b: "t < mb \<longrightarrow> shrinkTo hs m cap = shrinkToFit hs m"
    using st by simp
  have c: "mb \<le> t \<and> len \<le> t \<longrightarrow> shrinkTo hs m cap = Inr m"
    using st by simp
  have d: "\<exists>m'. shrinkTo hs m cap = Inr m' \<and> length (buckets m') \<le> length (buckets m) \<and>
      (m' = m \<or> 4 * count_hm m' \<le> 3 * int (length (buckets m'))) \<and>
      mset (iterator m') = mset (iterator m) \<and> size_hm m' = size_hm m"
  proof (cases "mb \<le> t \<and> t < len")
    case True
    with good [of t] st show ?thesis by simp
  next
    case False
    show ?thesis
    proof (cases "t < mb \<and> mb < len")
      case True
      with good [of mb] st sf False show ?thesis by simp
    next
      case no: False
      with False st sf have "shrinkTo hs m cap = Inr m"
        by auto
      then show ?thesis by simp
    qed
  qed
  from a b c d show ?thesis
    unfolding t_def mb_def len_def by blast
qed

theorem shrinkTo_cases_witness:
  "shrinkTo defaultHasher
      \<lparr>buckets = [[], [], [], [], [], [], [(KString ''a'', 1 :: nat)], []], count_hm = 1\<rparr> 2 =
    resize defaultHasher
      \<lparr>buckets = [[], [], [], [], [], [], [(KString ''a'', 1 :: nat)], []], count_hm = 1\<rparr> 3
   \<and> (\<exists>m'. shrinkTo defaultHasher
      \<lparr>buckets = [[], [], [], [], [], [], [(KString ''a'', 1 :: nat)], []], count_hm = 1\<rparr> 2 =
        Inr m' \<and> length (buckets m') \<le> 8 \<and> size_hm m' = 1 \<and>
        mset (iterator m') = {#(KString ''a'', 1)#})"
proof -
  let ?m = "\<lparr>buckets = [[], [], [], [], [], [], [(KString ''a'', 1 :: nat)], []], count_hm = 1\<rparr>"
  have len: "length (buckets ?m) = 2 ^ 3"
    by simp
  have k: "(3 :: nat) \<le> 30"
    by simp
  have t: "\<lceil>of_int 2 / loadThreshold\<rceil> = 3"
    by code_simp
  have mb: "\<lceil>of_int (count_hm ?m) / loadThreshold\<rceil> = 2"
    by code_simp
  note sc = shrinkTo_cases [OF len k, of 2 defaultHasher]
  have c: "\<lceil>of_int (count_hm ?m) / loadThreshold\<rceil> \<le> \<lceil>of_int 2 / loadThreshold\<rceil> \<and>
      \<lceil>of_int 2 / loadThreshold\<rceil> < int (length (buckets ?m))"
    unfolding t mb by simp
  from sc c have "shrinkTo defaultHasher ?m 2 = resize defaultHasher ?m \<lceil>of_int 2 / loadThreshold\<rceil>"
    by blast
  then have a: "shrinkTo defaultHasher ?m 2 = resize defaultHasher ?m 3"
    unfolding t .
  from sc have "\<exists>m'. shrinkTo defaultHasher ?m 2 = Inr m' \<and>
      length (buckets m') \<le> length (buckets ?m) \<and>
      mset (iterator m') = mset (iterator ?m) \<and> size_hm m' = size_hm ?m"
    by blast
  then have "\<exists>m'. shrinkTo defaultHasher ?m 2 = Inr m' \<and> length (buckets m') \<le> 8 \<and>
      size_hm m' = 1 \<and> mset (iterator m') = {#(KString ''a'', 1)#}"
    by (auto simp: size_hm_def iterator_def)
  with a show ?thesis
    by blast
qed

section \<open>Load after an insert\<close>

lemma capacity_ge_size_iff:
  "size_hm m \<le> capacity m \<longleftrightarrow> 4 * count_hm m \<le> 3 * int (length (buckets m))"
  unfolding capacity_def size_hm_def floor_threshold by presburger

text \<open>
  The step that the growth trigger of \<open>set\<close> takes care of: on a map with up to
  \<open>2 ^ 29\<close> buckets whose load is within the threshold, \<open>set\<close> returns a map whose
  capacity is at least its size, and it has doubled the bucket array exactly when the
  insert took the load over the threshold.
\<close>

lemma set_keeps_load:
  assumes "length (buckets m) = 2 ^ k" and "k \<le> 29" and "size_hm m \<le> capacity m"
  shows "\<exists>m'. set_hm hs m key value = Inr m' \<and> size_hm m' \<le> capacity m' \<and>
    (length (buckets m') = 2 * length (buckets m) \<longleftrightarrow>
       get hs m key = Inr None \<and> 4 * (count_hm m + 1) > 3 * int (length (buckets m)))"
proof -
  from set_hm_succeeds [OF assms(1,2), of hs key "value"] obtain m' where
    m': "set_hm hs m key value = Inr m'"
    by blast
  have load: "4 * count_hm m \<le> 3 * 2 ^ k"
    using assms(3) by (simp add: capacity_ge_size_iff assms(1))
  have pos: "(1::int) \<le> 2 ^ k"
    by simp
  from m' have "4 * count_hm m' \<le> 3 * int (length (buckets m')) \<and>
    (length (buckets m') = 2 * length (buckets m) \<longleftrightarrow>
       get hs m key = Inr None \<and> 4 * (count_hm m + 1) > 3 * int (length (buckets m)))"
  proof (cases rule: set_hm_cases)
    case (overwrite i b)
    then have "get hs m key \<noteq> Inr None"
      using set_scan_None_iff [of hs key "value" "buckets m ! i"] by (auto simp: get_def)
    with overwrite load show ?thesis
      by (simp add: assms(1))
  next
    case (push i)
    with load show ?thesis
      by (simp add: assms(1))
  next
    case (grow i)
    let ?m1 = "m\<lparr>buckets := (buckets m)[i := buckets m ! i @ [(key, value)]],
                  count_hm := count_hm m + 1\<rparr>"
    have "bucketCountFinal (2 ^ Suc k) = 2 ^ Suc k"
      using assms(2) by (intro bucketCountFinal_fix) simp
    then have bf: "bucketCountFinal (int (length (buckets m)) * 2) = 2 ^ Suc k"
      by (simp add: assms(1) mult.commute)
    have "Suc k \<le> 30" using assms(2) by simp
    from resize_eq [OF bf this, of hs ?m1] grow(4) have len': "length (buckets m') = 2 ^ Suc k"
      and c': "count_hm m' = count_hm m + 1"
      by auto
    have "get hs m key = Inr None"
      using grow(1,2) by (simp add: get_def set_scan_None_iff)
    moreover have "4 * c \<le> 3 * x \<Longrightarrow> 1 \<le> x \<Longrightarrow> 4 * (c + 1) \<le> 3 * (2 * x)" for c x :: int
      by presburger
    from this [OF load pos] have "4 * (count_hm m + 1) \<le> 3 * (2 * 2 ^ k)" .
    ultimately show ?thesis
      using grow(3) by (simp add: len' c' assms(1))
  qed
  with m' show ?thesis
    by (auto simp: capacity_ge_size_iff)
qed

text \<open>
  C2 fails on the code. \<open>reserve(1610612736)\<close> on a map that holds one entry asks
  \<open>resize\<close> for 2147483650 buckets. The rounding to a power of two shifts 1 by 32 places,
  which in 32-bit arithmetic is a shift by none, so the map is rehashed into a single
  bucket. The next insert of a new key doubles that to 2 buckets, and the map returned by
  \<open>set\<close> has capacity 1 and size 2.
\<close>

theorem reserve_overflow_breaks_load:
  "set_hm defaultHasher new_HashMap (KString ''a'') (1 :: nat) =
     Inr \<lparr>buckets = [[], [], [], [], [], [], [(KString ''a'', 1)], []], count_hm = 1\<rparr>
   \<and> bucketCountFinal 2147483650 = 1
   \<and> reserve defaultHasher
       \<lparr>buckets = [[], [], [], [], [], [], [(KString ''a'', 1 :: nat)], []], count_hm = 1\<rparr>
       1610612736 =
     Inr \<lparr>buckets = [[(KString ''a'', 1)]], count_hm = 1\<rparr>
   \<and> set_hm defaultHasher \<lparr>buckets = [[(KString ''a'', 1 :: nat)]], count_hm = 1\<rparr>
       (KString ''b'') 2 =
     Inr \<lparr>buckets = [[(KString ''a'', 1)], [(KString ''b'', 2)]], count_hm = 2\<rparr>
   \<and> reachable defaultHasher
       \<lparr>buckets = [[(KString ''a'', 1 :: nat)], [(KString ''b'', 2)]], count_hm = 2\<rparr>
   \<and> capacity \<lparr>buckets = [[(KString ''a'', 1 :: nat)], [(KString ''b'', 2)]], count_hm = 2\<rparr> = 1
   \<and> size_hm \<lparr>buckets = [[(KString ''a'', 1 :: nat)], [(KString ''b'', 2)]], count_hm = 2\<rparr> = 2"
proof -
  let ?m1 = "\<lparr>buckets = [[], [], [], [], [], [], [(KString ''a'', 1 :: nat)], []], count_hm = 1\<rparr>"
  let ?m2 = "\<lparr>buckets = [[(KString ''a'', 1 :: nat)]], count_hm = 1\<rparr>"
  let ?m3 = "\<lparr>buckets = [[(KString ''a'', 1 :: nat)], [(KString ''b'', 2)]], count_hm = 2\<rparr>"
  have s1: "set_hm defaultHasher new_HashMap (KString ''a'') (1 :: nat) = Inr ?m1"
    by code_simp
  have b: "bucketCountFinal 2147483650 = 1"
    by code_simp
  have r2: "reserve defaultHasher ?m1 1610612736 = Inr ?m2"
    by code_simp
  have s3: "set_hm defaultHasher ?m2 (KString ''b'') 2 = Inr ?m3"
    by code_simp
  have "reachable defaultHasher ?m1"
    by (rule reach_set [OF reach_new s1])
  then have "reachable defaultHasher ?m2"
    using r2 by (rule reach_reserve)
  then have r: "reachable defaultHasher ?m3"
    using s3 by (rule reach_set)
  have c: "capacity ?m3 = 1"
    by code_simp
  have z: "size_hm ?m3 = 2"
    by (simp add: size_hm_def)
  from s1 b r2 s3 r c z show ?thesis
    by blast
qed

text \<open>
  C4 fails on the code. \<open>withCapacity\<close> multiplies the requested capacity by the load
  threshold where \<open>reserve\<close> and \<open>shrinkTo\<close> divide by it: \<open>withCapacity(8)\<close> asks
  \<open>resize\<close> for \<open>ceil(8 * 0.75) = 6\<close> buckets and gets 8, whose capacity is 6, and
  \<open>withCapacity(1)\<close> gets one bucket, whose capacity is 0. \<open>reserve(8)\<close> on a new map
  asks for \<open>ceil(8 / 0.75) = 11\<close> buckets and gets 16, whose capacity is 12.
\<close>

theorem withCapacity_below_request:
  "withCapacity defaultHasher 8 =
     Inr (\<lparr>buckets = [[], [], [], [], [], [], [], []], count_hm = 0\<rparr> :: (key, nat) hashmap)
   \<and> capacity (\<lparr>buckets = [[], [], [], [], [], [], [], []], count_hm = 0\<rparr> :: (key, nat) hashmap) = 6
   \<and> withCapacity defaultHasher 1 = Inr (\<lparr>buckets = [[]], count_hm = 0\<rparr> :: (key, nat) hashmap)
   \<and> capacity (\<lparr>buckets = [[]], count_hm = 0\<rparr> :: (key, nat) hashmap) = 0
   \<and> map_sum id capacity (reserve defaultHasher (new_HashMap :: (key, nat) hashmap) 8) = Inr 12"
  by code_simp

end
